theory Spec2Isabelle
  imports Main "HOL-Library.Word"
begin

section \<open>The relay controller sketch\<close>

text \<open>
  A shallow embedding of \<^verbatim>\<open>sketch_2025_10_14.ino\<close>: the command handler
  \<^verbatim>\<open>handleCommand\<close>, the line reader \<^verbatim>\<open>readLine\<close> and the body of
  \<^verbatim>\<open>loop\<close> with its millis-based relay scheduler.

  Every value that the sketch reads from its environment is an argument of the model:
  each call of \<^verbatim>\<open>millis()\<close> is a \<open>u32\<close> argument, the bytes waiting in
  \<^verbatim>\<open>Serial\<close> are a field of the state. Every effect on the environment is
  recorded in the state: \<^verbatim>\<open>Serial.println\<close> appends a line to
  \<open>serial_out\<close>, \<^verbatim>\<open>digitalWrite\<close> appends the pin and the level to
  \<open>pin_writes\<close>.
\<close>

type_synonym u32 = "32 word"

subsection \<open>Board constants\<close>

text \<open>
  Two things the sketch uses come from the board support package and are not fixed by
  the sketch: the pin number \<^verbatim>\<open>LED_BUILTIN\<close> and the width of \<^verbatim>\<open>int\<close>
  in \<^verbatim>\<open>int pin = ... .toInt()\<close>, which narrows a 32-bit \<^verbatim>\<open>long\<close>.
  Both are parameters of the model. \<open>avr_board\<close> is the instance for the AVR boards
  (pin 13, 16-bit \<^verbatim>\<open>int\<close>).
\<close>

record board =
  LED_BUILTIN :: int
  int_of_long :: "u32 \<Rightarrow> int"

definition avr_board :: board where
  "avr_board = \<lparr>LED_BUILTIN = 13, int_of_long = (\<lambda>w. sint (ucast w :: 16 word))\<rparr>"

subsection \<open>Configuration\<close>

definition RELAY_PINS :: "int list" where
  "RELAY_PINS = [2, 3, 5, 7, 13]"

definition NUM_RELAYS :: nat where
  "NUM_RELAYS = length RELAY_PINS"

definition RELAYS_ACTIVE_LOW :: bool where
  "RELAYS_ACTIVE_LOW = True"

definition HANDSHAKE_Q :: string where
  "HANDSHAKE_Q = ''Hi, are you arduino?''"

definition HANDSHAKE_A :: string where
  "HANDSHAKE_A = ''This is Arduino''"

subsection \<open>State\<close>

text \<open>
  \<open>relayOnAt\<close> and \<open>relayOffAt\<close> are the two global arrays, \<open>line\<close> is the static
  \<^verbatim>\<open>String line\<close> of \<^verbatim>\<open>loop\<close>. A level is \<open>True\<close> for HIGH. \<open>boot_state\<close> holds
  the initial values of the variables, with nothing received, printed or written yet.
\<close>

record state =
  relayOnAt :: "u32 list"
  relayOffAt :: "u32 list"
  line :: string
  serial_in :: string
  serial_out :: "string list"
  pin_writes :: "(int \<times> bool) list"

definition boot_state :: state where
  "boot_state = \<lparr>relayOnAt = replicate NUM_RELAYS 0, relayOffAt = replicate NUM_RELAYS 0,
     line = [], serial_in = [], serial_out = [], pin_writes = []\<rparr>"

definition println :: "string \<Rightarrow> state \<Rightarrow> state" where
  "println s st = st\<lparr>serial_out := serial_out st @ [s]\<rparr>"

definition digitalWrite :: "int \<Rightarrow> bool \<Rightarrow> state \<Rightarrow> state" where
  "digitalWrite p level st = st\<lparr>pin_writes := pin_writes st @ [(p, level)]\<rparr>"

text \<open>The level \<^verbatim>\<open>setRelay\<close> drives: \<^verbatim>\<open>RELAYS_ACTIVE_LOW ? !on : on\<close>.\<close>

definition relay_level :: "bool \<Rightarrow> bool" where
  "relay_level on = (if RELAYS_ACTIVE_LOW then \<not> on else on)"

definition setRelay :: "nat \<Rightarrow> bool \<Rightarrow> state \<Rightarrow> state" where
  "setRelay idx on st =
     (let level = relay_level on
      in digitalWrite (RELAY_PINS ! idx) level st)"

subsection \<open>The Arduino \<^verbatim>\<open>String\<close> operations the sketch calls\<close>

text \<open>
  A \<^verbatim>\<open>String\<close> is a list of bytes: the \<^verbatim>\<open>len\<close> bytes of its buffer, which a
  terminating byte 0 follows. \<^verbatim>\<open>readLine\<close> appends every byte it reads, so a line can hold
  the byte 0 itself. The operations follow the Arduino core (\<^verbatim>\<open>WString.cpp\<close>) and the C
  library functions it calls on the buffer, in the C locale; where the core walks the
  buffer as a C string (\<^verbatim>\<open>equalsIgnoreCase\<close>, \<^verbatim>\<open>strchr\<close> in \<^verbatim>\<open>indexOf\<close>, the
  assignment in \<^verbatim>\<open>substring\<close>), the walk ends at the first byte 0. \<^verbatim>\<open>startsWith\<close>
  is \<^verbatim>\<open>strncmp\<close> over the length of the prefix, which for a prefix without a byte 0 (the
  sketch passes literals) compares exactly that many bytes. \<^verbatim>\<open>trim\<close> works on the
  length. \<^verbatim>\<open>atol\<close> stops at the first byte that is no digit, so it never passes a
  byte 0.
  \<^verbatim>\<open>atol\<close> is modelled with 32-bit wrap-around, as the arithmetic of a 32-bit
  \<^verbatim>\<open>long\<close> gives; the cast \<^verbatim>\<open>(uint32_t)\<close> of such a \<^verbatim>\<open>long\<close> keeps
  the bits, so \<open>toInt\<close> returns a \<open>u32\<close>.
\<close>

definition isupper_c :: "char \<Rightarrow> bool" where
  "isupper_c c = (65 \<le> (of_char c :: nat) \<and> (of_char c :: nat) \<le> 90)"

definition tolower_c :: "char \<Rightarrow> char" where
  "tolower_c c = (if isupper_c c then char_of ((of_char c :: nat) + 32) else c)"

definition isspace_c :: "char \<Rightarrow> bool" where
  "isspace_c c = ((of_char c :: nat) = 32 \<or> (9 \<le> (of_char c :: nat) \<and> (of_char c :: nat) \<le> 13))"

definition isdigit_c :: "char \<Rightarrow> bool" where
  "isdigit_c c = (48 \<le> (of_char c :: nat) \<and> (of_char c :: nat) \<le> 57)"

text \<open>
  The loop of \<^verbatim>\<open>equalsIgnoreCase\<close>, \<^verbatim>\<open>while (*p1) if (tolower(*p1++) != tolower(*p2++))
  return 0;\<close>: it ends with 1 at the first byte 0 of the receiver, which is its
  terminator at the latest. An exhausted \<open>p2\<close> stands at its terminator.
\<close>

fun eqic_loop :: "string \<Rightarrow> string \<Rightarrow> bool" where
  "eqic_loop [] p2 = True"
| "eqic_loop (c # p1) p2 =
     (if c = CHR 0x00 then True
      else case p2 of
             [] \<Rightarrow> False
           | d # p2' \<Rightarrow> if tolower_c c \<noteq> tolower_c d then False else eqic_loop p1 p2')"

definition equalsIgnoreCase :: "string \<Rightarrow> string \<Rightarrow> bool" where
  "equalsIgnoreCase s t = (if length s \<noteq> length t then False else eqic_loop s t)"

definition startsWith :: "string \<Rightarrow> string \<Rightarrow> bool" where
  "startsWith s p = (length p \<le> length s \<and> take (length p) s = p)"

text \<open>
  \<^verbatim>\<open>strchr\<close> on the bytes from a position of the buffer on: the offset of the first
  \<open>ch\<close>, looked for up to the first byte 0 (the terminator at the latest) and no further.
\<close>

fun strchr :: "char \<Rightarrow> string \<Rightarrow> nat option" where
  "strchr ch [] = (if ch = CHR 0x00 then Some 0 else None)"
| "strchr ch (c # cs) =
     (if c = ch then Some 0
      else if c = CHR 0x00 then None
      else map_option Suc (strchr ch cs))"

definition indexOf :: "string \<Rightarrow> char \<Rightarrow> nat \<Rightarrow> int" where
  "indexOf s ch fromIndex =
     (if fromIndex \<ge> length s then - 1
      else case strchr ch (drop fromIndex s) of
             None \<Rightarrow> - 1
           | Some k \<Rightarrow> int (fromIndex + k))"

text \<open>
  The C string that starts with the given bytes: what \<^verbatim>\<open>strlen\<close> counts and the
  assignment of a \<^verbatim>\<open>char *\<close> to a \<^verbatim>\<open>String\<close> copies.
\<close>

definition c_str :: "string \<Rightarrow> string" where
  "c_str s = takeWhile (\<lambda>c. c \<noteq> CHR 0x00) s"

text \<open>
  \<^verbatim>\<open>substring\<close> puts a byte 0 at \<open>right\<close>, assigns \<^verbatim>\<open>buffer + left\<close> to the result and
  restores the byte.
\<close>

definition substring :: "string \<Rightarrow> nat \<Rightarrow> nat \<Rightarrow> string" where
  "substring s left right =
     (let l = (if left > right then right else left);
          r = (if left > right then left else right)
      in if l \<ge> length s then []
         else c_str (take ((if r > length s then length s else r) - l) (drop l s)))"

definition substring_from :: "string \<Rightarrow> nat \<Rightarrow> string" where
  "substring_from s left = substring s left (length s)"

fun atol_digits :: "string \<Rightarrow> u32 \<Rightarrow> u32" where
  "atol_digits [] acc = acc"
| "atol_digits (c # cs) acc =
     (if isdigit_c c then atol_digits cs (acc * 10 + of_nat ((of_char c :: nat) - 48))
      else acc)"

definition atol :: "string \<Rightarrow> u32" where
  "atol s =
     (case dropWhile isspace_c s of
        [] \<Rightarrow> 0
      | c # cs \<Rightarrow>
          if c = CHR ''-'' then - atol_digits cs 0
          else if c = CHR ''+'' then atol_digits cs 0
          else atol_digits (c # cs) 0)"

definition toInt :: "string \<Rightarrow> u32" where
  "toInt s = atol s"

definition trim :: "string \<Rightarrow> string" where
  "trim s = rev (dropWhile isspace_c (rev (dropWhile isspace_c s)))"

subsection \<open>readLine\<close>

text \<open>
  The first argument is what \<^verbatim>\<open>Serial\<close> holds, the second the \<^verbatim>\<open>String &out\<close>.
  The result is the returned flag, the new \<open>out\<close> and the bytes left in
  \<^verbatim>\<open>Serial\<close>.
\<close>

fun readLine :: "string \<Rightarrow> string \<Rightarrow> bool \<times> string \<times> string" where
  "readLine [] out = (False, out, [])"
| "readLine (c # cs) out =
     (if c = CHR 0x0D then readLine cs out
      else if c = CHR 0x0A then (True, out, cs)
      else let out' = out @ [c]
           in readLine cs (if length out' > 120 then [] else out'))"

subsection \<open>handleCommand\<close>

text \<open>
  The field parsing of the two relay branches (the same text in both): the three
  \<^verbatim>\<open>indexOf\<close> calls, the check of the three positions and the three
  \<^verbatim>\<open>toInt\<close> calls. \<open>None\<close> is the early return after \<^verbatim>\<open>ERR\<close>. The second
  argument of \<^verbatim>\<open>indexOf\<close> and the arguments of \<^verbatim>\<open>substring\<close> are
  \<^verbatim>\<open>unsigned int\<close>; the positions passed are never below 0.
\<close>

definition relay_fields :: "board \<Rightarrow> string \<Rightarrow> (int \<times> u32 \<times> u32) option" where
  "relay_fields brd cmd =
     (let p1 = indexOf cmd CHR '';'' 0;
          p2 = indexOf cmd CHR '';'' (nat (p1 + 1));
          p3 = indexOf cmd CHR '';'' (nat (p2 + 1))
      in if p1 < 0 \<or> p2 < 0 \<or> p3 < 0 then None
         else let pin = int_of_long brd (toInt (substring cmd (nat (p1 + 1)) (nat p2)));
                  delayMs = toInt (substring cmd (nat (p2 + 1)) (nat p3));
                  durMs = toInt (substring_from cmd (nat (p3 + 1)))
              in Some (pin, delayMs, durMs))"

text \<open>
  The \<^verbatim>\<open>for\<close> loop of the \<^verbatim>\<open>RELAY_ON\<close> branch, from index \<open>i\<close> on. Leaving
  the loop without a match is \<^verbatim>\<open>!found\<close>.
\<close>

function relay_on_loop :: "nat \<Rightarrow> int \<Rightarrow> u32 \<Rightarrow> u32 \<Rightarrow> u32 \<Rightarrow> state \<Rightarrow> state" where
  "relay_on_loop i pin delayMs durMs now st =
     (if i < NUM_RELAYS then
        if RELAY_PINS ! i = pin then
          if relayOffAt st ! i > now then println ''BUSY'' st
          else let onAt = now + delayMs
               in println ''OK''
                    (st\<lparr>relayOnAt := (relayOnAt st)[i := onAt],
                        relayOffAt := (relayOffAt st)[i := onAt + durMs]\<rparr>)
        else relay_on_loop (Suc i) pin delayMs durMs now st
      else println ''ERR'' st)"
  by pat_completeness auto
termination
  by (relation "measure (\<lambda>(i, pin, delayMs, durMs, now, st). NUM_RELAYS - i)") auto

text \<open>The \<^verbatim>\<open>for\<close> loop of the \<^verbatim>\<open>RELAY_ON_OVERWRITE\<close> branch.\<close>

function relay_on_overwrite_loop :: "nat \<Rightarrow> int \<Rightarrow> u32 \<Rightarrow> u32 \<Rightarrow> u32 \<Rightarrow> state \<Rightarrow> state" where
  "relay_on_overwrite_loop i pin delayMs durMs now st =
     (if i < NUM_RELAYS then
        if RELAY_PINS ! i = pin then
          let onAt = now + delayMs
          in println ''OK''
               (st\<lparr>relayOnAt := (relayOnAt st)[i := onAt],
                   relayOffAt := (relayOffAt st)[i := onAt + durMs]\<rparr>)
        else relay_on_overwrite_loop (Suc i) pin delayMs durMs now st
      else println ''ERR'' st)"
  by pat_completeness auto
termination
  by (relation "measure (\<lambda>(i, pin, delayMs, durMs, now, st). NUM_RELAYS - i)") auto

definition handleCommand :: "board \<Rightarrow> string \<Rightarrow> u32 \<Rightarrow> state \<Rightarrow> state" where
  "handleCommand brd cmd now st =
     (if equalsIgnoreCase cmd ''PING'' then println ''PONG'' st
      else if equalsIgnoreCase cmd ''LED ON'' then
        println ''OK'' (digitalWrite (LED_BUILTIN brd) True st)
      else if equalsIgnoreCase cmd ''LED OFF'' then
        println ''OK'' (digitalWrite (LED_BUILTIN brd) False st)
      else if equalsIgnoreCase cmd ''STATUS'' then println ''READY'' st
      else if equalsIgnoreCase cmd HANDSHAKE_Q then println HANDSHAKE_A st
      else if startsWith cmd ''RELAY_ON;'' then
        (case relay_fields brd cmd of
           None \<Rightarrow> println ''ERR'' st
         | Some (pin, delayMs, durMs) \<Rightarrow> relay_on_loop 0 pin delayMs durMs now st)
      else if startsWith cmd ''RELAY_ON_OVERWRITE;'' then
        (case relay_fields brd cmd of
           None \<Rightarrow> println ''ERR'' st
         | Some (pin, delayMs, durMs) \<Rightarrow> relay_on_overwrite_loop 0 pin delayMs durMs now st)
      else println ''ERR'' st)"

subsection \<open>loop\<close>

text \<open>One pass of the scheduler's \<^verbatim>\<open>for\<close> body, for relay \<open>i\<close>.\<close>

definition scheduler_step :: "u32 \<Rightarrow> nat \<Rightarrow> state \<Rightarrow> state" where
  "scheduler_step now i st =
     (let st1 = (if relayOnAt st ! i \<noteq> 0 \<and> now \<ge> relayOnAt st ! i
                 then (setRelay i True st)\<lparr>relayOnAt := (relayOnAt st)[i := 0]\<rparr>
                 else st)
      in if relayOffAt st1 ! i \<noteq> 0 \<and> now \<ge> relayOffAt st1 ! i
         then (setRelay i False st1)\<lparr>relayOffAt := (relayOffAt st1)[i := 0]\<rparr>
         else st1)"

definition scheduler :: "u32 \<Rightarrow> state \<Rightarrow> state" where
  "scheduler now st = fold (scheduler_step now) [0..<NUM_RELAYS] st"

text \<open>
  One iteration of \<^verbatim>\<open>loop\<close>. \<open>t_cmd\<close> is the value \<^verbatim>\<open>millis()\<close> returns inside
  \<^verbatim>\<open>handleCommand\<close>, \<open>t_tick\<close> the value it returns before the scheduler.
\<close>

definition loop :: "board \<Rightarrow> u32 \<Rightarrow> u32 \<Rightarrow> state \<Rightarrow> state" where
  "loop brd t_cmd t_tick st =
     (case readLine (serial_in st) (line st) of
        (got, out, rest) \<Rightarrow>
          let st1 = st\<lparr>line := out, serial_in := rest\<rparr>;
              st2 = (if got then
                       let trimmed = trim out;
                           st' = st1\<lparr>line := trimmed\<rparr>;
                           st'' = (if length trimmed > 0
                                   then handleCommand brd trimmed t_cmd st' else st')
                       in st''\<lparr>line := []\<rparr>
                     else st1)
          in scheduler t_tick st2)"

text \<open>Bytes arriving on the serial port between two iterations.\<close>

definition receive :: "string \<Rightarrow> state \<Rightarrow> state" where
  "receive bytes st = st\<lparr>serial_in := serial_in st @ bytes\<rparr>"

subsection \<open>Notions used in the statements\<close>

text \<open>
  The arrays have \<^verbatim>\<open>NUM_RELAYS\<close> elements. \<open>on_due\<close> and \<open>off_due\<close> are the two
  conditions of the scheduler, \<open>due_writes\<close> the \<^verbatim>\<open>digitalWrite\<close> calls they guard,
  \<open>writes_since st st'\<close> the calls made on the way from \<open>st\<close> to \<open>st'\<close>.
\<close>

definition on_due :: "u32 \<Rightarrow> state \<Rightarrow> nat \<Rightarrow> bool" where
  "on_due now st i = (relayOnAt st ! i \<noteq> 0 \<and> relayOnAt st ! i \<le> now)"

definition off_due :: "u32 \<Rightarrow> state \<Rightarrow> nat \<Rightarrow> bool" where
  "off_due now st i = (relayOffAt st ! i \<noteq> 0 \<and> relayOffAt st ! i \<le> now)"

definition due_writes :: "u32 \<Rightarrow> state \<Rightarrow> nat \<Rightarrow> (int \<times> bool) list" where
  "due_writes now st i =
     (if on_due now st i then [(RELAY_PINS ! i, relay_level True)] else []) @
     (if off_due now st i then [(RELAY_PINS ! i, relay_level False)] else [])"

definition writes_since :: "state \<Rightarrow> state \<Rightarrow> (int \<times> bool) list" where
  "writes_since st st' = drop (length (pin_writes st)) (pin_writes st')"

definition wf_state :: "state \<Rightarrow> bool" where
  "wf_state st = (length (relayOnAt st) = NUM_RELAYS \<and> length (relayOffAt st) = NUM_RELAYS)"

definition scheduler_upto :: "nat \<Rightarrow> u32 \<Rightarrow> state \<Rightarrow> state" where
  "scheduler_upto n now st = fold (scheduler_step now) [0..<n] st"


text \<open>
  The wrap-safe test that the specification asks of the scheduler, in its words: the
  difference \<open>now - deadline\<close>, taken modulo \<open>2 ^ 32\<close>, has its sign bit clear.
\<close>

definition spec_wrap_safe_due :: "u32 \<Rightarrow> u32 \<Rightarrow> bool" where
  "spec_wrap_safe_due now deadline = (\<not> bit (now - deadline) 31)"

text \<open>
  Relay 0 armed 16 ms before the counter wraps, for 32 ms: \<open>relayOnAt\<close> is
  \<open>0xFFFFFFF0\<close> and \<open>relayOffAt\<close> is \<open>0x10\<close>.
\<close>

definition armed_before_wrap :: state where
  "armed_before_wrap = handleCommand avr_board ''RELAY_ON;2;0;32'' 0xFFFFFFF0 boot_state"

text \<open>The \<^verbatim>\<open>digitalWrite\<close> calls among \<open>ws\<close> that drive pin \<open>p\<close>.\<close>

definition on_pin :: "int \<Rightarrow> (int \<times> bool) list \<Rightarrow> (int \<times> bool) list" where
  "on_pin p ws = filter (\<lambda>w. fst w = p) ws"

text \<open>Relay 13 armed with delay 0 and duration 0 while \<^verbatim>\<open>millis()\<close> returns 0.\<close>

definition armed_at_zero :: state where
  "armed_at_zero = handleCommand avr_board ''RELAY_ON;13;0;0'' 0 boot_state"

text \<open>The same command in the last millisecond before the counter wraps.\<close>

definition armed_at_max :: state where
  "armed_at_max = handleCommand avr_board ''RELAY_ON;13;0;0'' 0xFFFFFFFF boot_state"

text \<open>
  The invariant of the specification, in its words: whenever both timestamps of a relay
  are present, \<open>off_at > on_at\<close>. A timestamp is present when it is not 0.
\<close>

definition spec_off_after_on :: "state \<Rightarrow> bool" where
  "spec_off_after_on st =
     (\<forall>k\<in>{0..<NUM_RELAYS}. relayOnAt st ! k \<noteq> 0 \<and> relayOffAt st ! k \<noteq> 0 \<longrightarrow>
        relayOnAt st ! k < relayOffAt st ! k)"

text \<open>The same with \<open>\<le>\<close> in place of \<open><\<close>.\<close>

definition off_not_before_on :: "state \<Rightarrow> bool" where
  "off_not_before_on st =
     (\<forall>k\<in>{0..<NUM_RELAYS}. relayOnAt st ! k \<noteq> 0 \<and> relayOffAt st ! k \<noteq> 0 \<longrightarrow>
        relayOnAt st ! k \<le> relayOffAt st ! k)"

text \<open>
  \<open>case_variation s t\<close>: the line \<open>s\<close> differs from \<open>t\<close> at most in the case of letters.
  Then the case variations of a keyword or of the handshake, the lines
  \<^verbatim>\<open>handleCommand\<close> takes for a relay command, and the number of occurrences of a
  character in a line.
\<close>

definition case_variation :: "string \<Rightarrow> string \<Rightarrow> bool" where
  "case_variation s t = (length s = length t \<and> map tolower_c s = map tolower_c t)"




text \<open>
  What \<^verbatim>\<open>readLine\<close> holds in \<open>out\<close> after the bytes \<open>xs\<close>, none of them the terminator,
  have been read into the buffer \<open>out\<close>: the carriage returns are dropped, and of the rest
  only what follows the last reset remains.
\<close>

definition accumulated :: "string \<Rightarrow> string \<Rightarrow> string" where
  "accumulated out xs =
     (let body = out @ filter (\<lambda>c. c \<noteq> CHR 0x0D) xs
      in drop (121 * (length body div 121)) body)"

text \<open>A line of 125 characters: 121 times \<^verbatim>\<open>A\<close>, then \<^verbatim>\<open>PING\<close>.\<close>

definition long_line :: string where
  "long_line = replicate 121 CHR ''A'' @ ''PING''"

text \<open>Relay 13 armed 10 ms before the counter wraps, for 100 ms.\<close>

definition armed_13_before_wrap :: state where
  "armed_13_before_wrap = handleCommand avr_board ''RELAY_ON;13;0;100'' 0xFFFFFFF6 boot_state"

declare relay_on_loop.simps [simp del] relay_on_overwrite_loop.simps [simp del]

section \<open>Properties\<close>

subsection \<open>Strings and the dispatch\<close>


lemma startsWith_Cons:
  "startsWith s (c # p) \<longleftrightarrow> (\<exists>r. s = c # r \<and> startsWith r p)"
  by (cases s) (auto simp: startsWith_def)

lemma startsWith_Nil [simp]: "startsWith s []"
  by (simp add: startsWith_def)

lemma equalsIgnoreCase_first:
  "equalsIgnoreCase (c # s) (d # t) \<Longrightarrow> c \<noteq> CHR 0x00 \<Longrightarrow> tolower_c c = tolower_c d"
  by (auto simp: equalsIgnoreCase_def split: if_splits)

lemma equalsIgnoreCase_length: "equalsIgnoreCase s t \<Longrightarrow> length s = length t"
  by (simp add: equalsIgnoreCase_def split: if_splits)

lemma relay_prefix_not_keyword:
  assumes "startsWith cmd ''RELAY_ON''"
  shows "\<not> equalsIgnoreCase cmd ''PING''" "\<not> equalsIgnoreCase cmd ''LED ON''"
    "\<not> equalsIgnoreCase cmd ''LED OFF''" "\<not> equalsIgnoreCase cmd ''STATUS''"
    "\<not> equalsIgnoreCase cmd HANDSHAKE_Q"
proof -
  from assms obtain r where r: "cmd = CHR ''R'' # r"
    by (auto simp: startsWith_Cons)
  have "\<not> equalsIgnoreCase (CHR ''R'' # r) (d # t)" if "tolower_c d \<noteq> tolower_c CHR ''R''" for d t
    using that equalsIgnoreCase_first [of "CHR ''R''" r d t] by auto
  then show "\<not> equalsIgnoreCase cmd ''PING''" "\<not> equalsIgnoreCase cmd ''LED ON''"
    "\<not> equalsIgnoreCase cmd ''LED OFF''" "\<not> equalsIgnoreCase cmd ''STATUS''"
    "\<not> equalsIgnoreCase cmd HANDSHAKE_Q"
    by (simp_all add: r HANDSHAKE_Q_def tolower_c_def isupper_c_def)
qed

lemma handleCommand_relay_on:
  assumes "startsWith cmd ''RELAY_ON;''"
  shows "handleCommand brd cmd now st =
    (case relay_fields brd cmd of
       None \<Rightarrow> println ''ERR'' st
     | Some (pin, delayMs, durMs) \<Rightarrow> relay_on_loop 0 pin delayMs durMs now st)"
proof -
  have "startsWith cmd ''RELAY_ON''"
    using assms by (auto simp: startsWith_Cons)
  from relay_prefix_not_keyword [OF this] assms show ?thesis
    by (simp add: handleCommand_def)
qed

lemma handleCommand_relay_on_overwrite:
  assumes "startsWith cmd ''RELAY_ON_OVERWRITE;''"
  shows "handleCommand brd cmd now st =
    (case relay_fields brd cmd of
       None \<Rightarrow> println ''ERR'' st
     | Some (pin, delayMs, durMs) \<Rightarrow> relay_on_overwrite_loop 0 pin delayMs durMs now st)"
proof -
  have p: "startsWith cmd ''RELAY_ON''"
    using assms by (auto simp: startsWith_Cons)
  have n: "\<not> startsWith cmd ''RELAY_ON;''"
    using assms by (auto simp: startsWith_Cons)
  from relay_prefix_not_keyword [OF p] n assms show ?thesis
    by (simp add: handleCommand_def)
qed

lemma relay_on_loop_skip:
  assumes "\<forall>j. i \<le> j \<and> j < k \<longrightarrow> RELAY_PINS ! j \<noteq> pin" "i \<le> k" "k \<le> NUM_RELAYS"
  shows "relay_on_loop i pin d u now st = relay_on_loop k pin d u now st"
  using assms
proof (induction i pin d u now st rule: relay_on_loop.induct)
  case (1 i pin d u now st)
  show ?case
  proof (cases "i = k")
    case True then show ?thesis by simp
  next
    case False
    with 1 have a: "i < k" "i < NUM_RELAYS" "RELAY_PINS ! i \<noteq> pin" by auto
    with 1 have "relay_on_loop (Suc i) pin d u now st = relay_on_loop k pin d u now st"
      by auto
    with a show ?thesis by (subst relay_on_loop.simps) simp
  qed
qed

lemma distinct_RELAY_PINS: "distinct RELAY_PINS"
  by (simp add: RELAY_PINS_def)

lemma RELAY_PINS_unique:
  "k < NUM_RELAYS \<Longrightarrow> j < NUM_RELAYS \<Longrightarrow> RELAY_PINS ! j = RELAY_PINS ! k \<Longrightarrow> j = k"
  using distinct_RELAY_PINS by (simp add: NUM_RELAYS_def nth_eq_iff_index_eq)

lemma relay_on_loop_found:
  assumes "k < NUM_RELAYS" "RELAY_PINS ! k = pin"
  shows "relay_on_loop 0 pin d u now st =
     (if relayOffAt st ! k > now then println ''BUSY'' st
      else println ''OK''
             (st\<lparr>relayOnAt := (relayOnAt st)[k := now + d],
                 relayOffAt := (relayOffAt st)[k := now + d + u]\<rparr>))"
proof -
  have "\<forall>j. 0 \<le> j \<and> j < k \<longrightarrow> RELAY_PINS ! j \<noteq> pin"
  proof (intro allI impI notI)
    fix j assume "0 \<le> j \<and> j < k" "RELAY_PINS ! j = pin"
    with assms RELAY_PINS_unique [of k j] show False by simp
  qed
  then have "relay_on_loop 0 pin d u now st = relay_on_loop k pin d u now st"
    using assms by (intro relay_on_loop_skip) auto
  then show ?thesis
    using assms by (subst (asm) (2) relay_on_loop.simps) (simp add: Let_def)
qed

lemma relay_on_loop_unknown:
  assumes "pin \<notin> set RELAY_PINS"
  shows "relay_on_loop 0 pin d u now st = println ''ERR'' st"
proof -
  have "\<forall>j. 0 \<le> j \<and> j < NUM_RELAYS \<longrightarrow> RELAY_PINS ! j \<noteq> pin"
    using assms by (auto simp: NUM_RELAYS_def)
  then have "relay_on_loop 0 pin d u now st = relay_on_loop NUM_RELAYS pin d u now st"
    by (intro relay_on_loop_skip) auto
  then show ?thesis
    by (subst (asm) (2) relay_on_loop.simps) simp
qed

subsection \<open>The scheduler\<close>

lemma scheduler_step_eq:
  "scheduler_step now i st =
     st\<lparr>relayOnAt := (if on_due now st i then (relayOnAt st)[i := 0] else relayOnAt st),
        relayOffAt := (if off_due now st i then (relayOffAt st)[i := 0] else relayOffAt st),
        pin_writes := pin_writes st @ due_writes now st i\<rparr>"
  by (simp add: scheduler_step_def setRelay_def digitalWrite_def on_due_def off_due_def
      due_writes_def Let_def)

lemma scheduler_upto_0 [simp]: "scheduler_upto 0 now st = st"
  by (simp add: scheduler_upto_def)

lemma scheduler_upto_Suc:
  "scheduler_upto (Suc n) now st = scheduler_step now n (scheduler_upto n now st)"
  by (simp add: scheduler_upto_def)

lemma scheduler_upto_fields:
  "n \<le> length (relayOnAt st) \<Longrightarrow> n \<le> length (relayOffAt st) \<Longrightarrow>
   relayOnAt (scheduler_upto n now st) =
     map (\<lambda>x. if x \<le> now then 0 else x) (take n (relayOnAt st)) @ drop n (relayOnAt st) \<and>
   relayOffAt (scheduler_upto n now st) =
     map (\<lambda>x. if x \<le> now then 0 else x) (take n (relayOffAt st)) @ drop n (relayOffAt st) \<and>
   pin_writes (scheduler_upto n now st) =
     pin_writes st @ concat (map (due_writes now st) [0..<n]) \<and>
   line (scheduler_upto n now st) = line st \<and>
   serial_in (scheduler_upto n now st) = serial_in st \<and>
   serial_out (scheduler_upto n now st) = serial_out st"
proof (induction n)
  case 0
  then show ?case by simp
next
  case (Suc n)
  let ?s = "scheduler_upto n now st"
  let ?f = "\<lambda>x. if x \<le> now then 0 else x :: u32"
  from Suc have n: "n < length (relayOnAt st)" "n < length (relayOffAt st)" by simp_all
  with Suc have IH:
    "relayOnAt ?s = map ?f (take n (relayOnAt st)) @ drop n (relayOnAt st)"
    "relayOffAt ?s = map ?f (take n (relayOffAt st)) @ drop n (relayOffAt st)"
    "pin_writes ?s = pin_writes st @ concat (map (due_writes now st) [0..<n])"
    "line ?s = line st" "serial_in ?s = serial_in st" "serial_out ?s = serial_out st"
    by simp_all
  have nth_on: "relayOnAt ?s ! n = relayOnAt st ! n"
    using n by (simp add: IH nth_append)
  have nth_off: "relayOffAt ?s ! n = relayOffAt st ! n"
    using n by (simp add: IH nth_append)
  have upd: "\<And>xs :: u32 list. n < length xs \<Longrightarrow>
      (map ?f (take n xs) @ drop n xs)[n := ?f (xs ! n)] = map ?f (take (Suc n) xs) @ drop (Suc n) xs"
    by (simp add: list_update_append take_Suc_conv_app_nth Cons_nth_drop_Suc [symmetric])
  have same: "\<And>xs :: u32 list. n < length xs \<Longrightarrow> ?f (xs ! n) = xs ! n \<Longrightarrow>
      (map ?f (take n xs) @ drop n xs) = map ?f (take (Suc n) xs) @ drop (Suc n) xs"
    by (simp add: take_Suc_conv_app_nth Cons_nth_drop_Suc [symmetric])
  have due_eq: "on_due now ?s n = on_due now st n" "off_due now ?s n = off_due now st n"
    by (simp_all add: on_due_def off_due_def nth_on nth_off)
  have dw: "due_writes now ?s n = due_writes now st n"
    by (simp add: due_writes_def due_eq)
  have on': "relayOnAt (scheduler_step now n ?s) =
      map ?f (take (Suc n) (relayOnAt st)) @ drop (Suc n) (relayOnAt st)"
  proof (cases "on_due now st n")
    case True
    then have "?f (relayOnAt st ! n) = 0" by (simp add: on_due_def)
    with upd [OF n(1)] True show ?thesis
      by (simp add: scheduler_step_eq due_eq IH)
  next
    case False
    then have "?f (relayOnAt st ! n) = relayOnAt st ! n" by (auto simp: on_due_def)
    from same [OF n(1) this] False show ?thesis
      by (simp add: scheduler_step_eq due_eq IH)
  qed
  have off': "relayOffAt (scheduler_step now n ?s) =
      map ?f (take (Suc n) (relayOffAt st)) @ drop (Suc n) (relayOffAt st)"
  proof (cases "off_due now st n")
    case True
    then have "?f (relayOffAt st ! n) = 0" by (simp add: off_due_def)
    with upd [OF n(2)] True show ?thesis
      by (simp add: scheduler_step_eq due_eq IH)
  next
    case False
    then have "?f (relayOffAt st ! n) = relayOffAt st ! n" by (auto simp: off_due_def)
    from same [OF n(2) this] False show ?thesis
      by (simp add: scheduler_step_eq due_eq IH)
  qed
  have pw: "pin_writes (scheduler_step now n ?s) =
      pin_writes st @ concat (map (due_writes now st) [0..<Suc n])"
    by (simp add: scheduler_step_eq dw IH)
  have rest: "line (scheduler_step now n ?s) = line st"
    "serial_in (scheduler_step now n ?s) = serial_in st"
    "serial_out (scheduler_step now n ?s) = serial_out st"
    by (simp_all add: scheduler_step_eq IH)
  show ?case
    unfolding scheduler_upto_Suc using on' off' pw rest by simp
qed

lemma scheduler_eq:
  assumes "wf_state st"
  shows "scheduler now st =
     st\<lparr>relayOnAt := map (\<lambda>x. if x \<le> now then 0 else x) (relayOnAt st),
        relayOffAt := map (\<lambda>x. if x \<le> now then 0 else x) (relayOffAt st),
        pin_writes := pin_writes st @ concat (map (due_writes now st) [0..<NUM_RELAYS])\<rparr>"
proof -
  have "scheduler now st = scheduler_upto NUM_RELAYS now st"
    by (simp add: scheduler_def scheduler_upto_def)
  moreover note scheduler_upto_fields [of NUM_RELAYS st now]
  ultimately show ?thesis
    using assms by (intro state.equality) (simp_all add: wf_state_def)
qed

lemma relay_on_overwrite_loop_skip:
  assumes "\<forall>j. i \<le> j \<and> j < k \<longrightarrow> RELAY_PINS ! j \<noteq> pin" "i \<le> k" "k \<le> NUM_RELAYS"
  shows "relay_on_overwrite_loop i pin d u now st = relay_on_overwrite_loop k pin d u now st"
  using assms
proof (induction i pin d u now st rule: relay_on_overwrite_loop.induct)
  case (1 i pin d u now st)
  show ?case
  proof (cases "i = k")
    case True then show ?thesis by simp
  next
    case False
    with 1 have a: "i < k" "i < NUM_RELAYS" "RELAY_PINS ! i \<noteq> pin" by auto
    with 1 have "relay_on_overwrite_loop (Suc i) pin d u now st =
        relay_on_overwrite_loop k pin d u now st"
      by auto
    with a show ?thesis by (subst relay_on_overwrite_loop.simps) simp
  qed
qed

lemma relay_on_overwrite_loop_found:
  assumes "k < NUM_RELAYS" "RELAY_PINS ! k = pin"
  shows "relay_on_overwrite_loop 0 pin d u now st =
     println ''OK''
       (st\<lparr>relayOnAt := (relayOnAt st)[k := now + d],
           relayOffAt := (relayOffAt st)[k := now + d + u]\<rparr>)"
proof -
  have "\<forall>j. 0 \<le> j \<and> j < k \<longrightarrow> RELAY_PINS ! j \<noteq> pin"
  proof (intro allI impI notI)
    fix j assume "0 \<le> j \<and> j < k" "RELAY_PINS ! j = pin"
    with assms RELAY_PINS_unique [of k j] show False by simp
  qed
  then have "relay_on_overwrite_loop 0 pin d u now st =
      relay_on_overwrite_loop k pin d u now st"
    using assms by (intro relay_on_overwrite_loop_skip) auto
  then show ?thesis
    using assms by (subst (asm) (2) relay_on_overwrite_loop.simps) (simp add: Let_def)
qed

lemma relay_on_overwrite_loop_unknown:
  assumes "pin \<notin> set RELAY_PINS"
  shows "relay_on_overwrite_loop 0 pin d u now st = println ''ERR'' st"
proof -
  have "\<forall>j. 0 \<le> j \<and> j < NUM_RELAYS \<longrightarrow> RELAY_PINS ! j \<noteq> pin"
    using assms by (auto simp: NUM_RELAYS_def)
  then have "relay_on_overwrite_loop 0 pin d u now st =
      relay_on_overwrite_loop NUM_RELAYS pin d u now st"
    by (intro relay_on_overwrite_loop_skip) auto
  then show ?thesis
    by (subst (asm) (2) relay_on_overwrite_loop.simps) simp
qed

lemma scheduler_wf: "wf_state st \<Longrightarrow> wf_state (scheduler now st)"
  by (simp add: scheduler_eq) (simp add: wf_state_def)

lemma scheduler_nth:
  assumes "wf_state st" "k < NUM_RELAYS"
  shows "relayOnAt (scheduler now st) ! k =
           (if relayOnAt st ! k \<le> now then 0 else relayOnAt st ! k)"
    and "relayOffAt (scheduler now st) ! k =
           (if relayOffAt st ! k \<le> now then 0 else relayOffAt st ! k)"
  using assms by (simp_all add: scheduler_eq) (simp_all add: wf_state_def)

lemma scheduler_other:
  assumes "wf_state st"
  shows "serial_out (scheduler now st) = serial_out st"
    "serial_in (scheduler now st) = serial_in st" "line (scheduler now st) = line st"
  using assms by (simp_all add: scheduler_eq)

lemma fold_scheduler_off_pending:
  assumes "wf_state st" "k < NUM_RELAYS" "\<forall>t\<in>set ts. t < relayOffAt st ! k"
  shows "wf_state (fold scheduler ts st) \<and>
         relayOffAt (fold scheduler ts st) ! k = relayOffAt st ! k"
  using assms
proof (induction ts arbitrary: st)
  case Nil
  then show ?case by simp
next
  case (Cons t ts)
  then have "\<not> relayOffAt st ! k \<le> t" by (simp add: not_le)
  then have "relayOffAt (scheduler t st) ! k = relayOffAt st ! k"
    using Cons.prems by (simp add: scheduler_nth)
  with Cons show ?case by (simp add: scheduler_wf)
qed

subsection \<open>The fields of a well-formed relay command\<close>

lemma c_str_text [simp]: "CHR 0x00 \<notin> set s \<Longrightarrow> c_str s = s"
  by (induction s) (auto simp: c_str_def)

lemma strchr_first:
  "ch \<notin> set xs \<Longrightarrow> CHR 0x00 \<notin> set xs \<Longrightarrow> strchr ch (xs @ ch # ys) = Some (length xs)"
  by (induction xs) auto

lemma indexOf_first:
  assumes "ch \<notin> set xs" "CHR 0x00 \<notin> set xs"
  shows "indexOf (pre @ xs @ ch # ys) ch (length pre) = int (length pre + length xs)"
  by (simp add: indexOf_def strchr_first [OF assms])

lemma substring_middle:
  "CHR 0x00 \<notin> set xs \<Longrightarrow>
   substring (pre @ xs @ ys) (length pre) (length pre + length xs) = xs"
  by (auto simp: substring_def Let_def)

lemma substring_from_suffix: "substring_from (pre @ ys) (length pre) = c_str ys"
  by (simp add: substring_from_def substring_def Let_def c_str_def)

text \<open>\<^verbatim>\<open>atol\<close> reads no further than the first byte 0.\<close>

lemma atol_digits_c_str: "atol_digits (c_str s) acc = atol_digits s acc"
  by (induction s arbitrary: acc) (auto simp: c_str_def isdigit_c_def)

lemma toInt_c_str: "toInt (c_str s) = toInt s"
proof (induction s)
  case Nil
  then show ?case by (simp add: c_str_def)
next
  case (Cons c s)
  show ?case
  proof (cases "c = CHR 0x00")
    case True
    then show ?thesis
      by (simp add: toInt_def atol_def c_str_def isspace_c_def isdigit_c_def)
  next
    case False
    note nz = this
    show ?thesis
    proof (cases "isspace_c c")
      case True
      with nz Cons show ?thesis by (simp add: toInt_def atol_def c_str_def)
    next
      case False
      have "c_str (c # s) = c # c_str s" using nz by (simp add: c_str_def)
      moreover have "atol_digits (c # c_str s) 0 = atol_digits (c # s) 0"
        using atol_digits_c_str [of "c # s" 0] nz by (simp add: c_str_def)
      ultimately show ?thesis
        using False by (simp add: toInt_def atol_def atol_digits_c_str del: atol_digits.simps)
    qed
  qed
qed

text \<open>
  A line made of a keyword and three fields separated by \<^verbatim>\<open>;\<close>, where the keyword and
  the first two fields hold neither \<^verbatim>\<open>;\<close> nor a byte 0, is split into these three fields.
\<close>

lemma relay_fields_wellformed:
  assumes "CHR '';'' \<notin> set kw" "CHR '';'' \<notin> set a" "CHR '';'' \<notin> set b"
    and "CHR 0x00 \<notin> set kw" "CHR 0x00 \<notin> set a" "CHR 0x00 \<notin> set b"
  shows "relay_fields brd (kw @ CHR '';'' # a @ CHR '';'' # b @ CHR '';'' # c) =
     Some (int_of_long brd (toInt a), toInt b, toInt c)"
proof -
  let ?s = "kw @ CHR '';'' # a @ CHR '';'' # b @ CHR '';'' # c"
  have p1: "indexOf ?s CHR '';'' 0 = int (length kw)"
    using indexOf_first [OF assms(1,4), of "[]"] by simp
  have p2: "indexOf ?s CHR '';'' (Suc (length kw)) = int (Suc (length kw) + length a)"
    using indexOf_first [OF assms(2,5), of "kw @ [CHR '';'']" "b @ CHR '';'' # c"] by simp
  have p3: "indexOf ?s CHR '';'' (Suc (Suc (length kw + length a))) =
      int (Suc (Suc (length kw + length a)) + length b)"
    using indexOf_first [OF assms(3,6), of "kw @ CHR '';'' # a @ [CHR '';'']" c] by simp
  have s1: "substring ?s (Suc (length kw)) (Suc (length kw + length a)) = a"
    using substring_middle [OF assms(5), of "kw @ [CHR '';'']" "CHR '';'' # b @ CHR '';'' # c"]
    by simp
  have s2: "substring ?s (Suc (Suc (length kw + length a)))
      (Suc (Suc (length kw + length a + length b))) = b"
    using substring_middle [OF assms(6), of "kw @ CHR '';'' # a @ [CHR '';'']" "CHR '';'' # c"]
    by simp
  have s3: "substring_from ?s (Suc (Suc (Suc (length kw + length a + length b)))) = c_str c"
    using substring_from_suffix [of "kw @ CHR '';'' # a @ CHR '';'' # b @ [CHR '';'']" c]
    by (simp add: add.assoc)
  have n: "nat (int (length kw) + 1) = Suc (length kw)"
    "nat (int (Suc (length kw) + length a) + 1) = Suc (Suc (length kw + length a))"
    "nat (int (Suc (Suc (length kw + length a)) + length b) + 1) =
       Suc (Suc (Suc (length kw + length a + length b)))"
    "nat (int (Suc (length kw) + length a)) = Suc (length kw + length a)"
    "nat (int (Suc (Suc (length kw + length a)) + length b)) =
       Suc (Suc (length kw + length a + length b))"
    by simp_all
  show ?thesis
    unfolding relay_fields_def Let_def p1 n p2 p3 s1 s2 s3 toInt_c_str by simp
qed

subsection \<open>Arming a relay\<close>

text \<open>
  Claim C2. A \<^verbatim>\<open>RELAY_ON_OVERWRITE\<close> command is never answered \<^verbatim>\<open>BUSY\<close>: the
  reply is \<^verbatim>\<open>OK\<close> or \<^verbatim>\<open>ERR\<close>, whatever the schedule holds. When no configured
  relay has the pin of the command the reply is \<^verbatim>\<open>ERR\<close> and nothing else changes;
  otherwise the reply is \<^verbatim>\<open>OK\<close> and both timestamps of that relay are replaced, by
  \<open>now + delayMs\<close> and by that value plus \<open>durMs\<close>.
\<close>

theorem relay_on_overwrite_never_busy:
  assumes "startsWith cmd ''RELAY_ON_OVERWRITE;''"
  shows "(\<exists>r\<in>{''OK'', ''ERR''}.
            serial_out (handleCommand brd cmd now st) = serial_out st @ [r]) \<and>
         (\<forall>pin d u. relay_fields brd cmd = Some (pin, d, u) \<longrightarrow>
            (pin \<notin> set RELAY_PINS \<longrightarrow>
               handleCommand brd cmd now st = st\<lparr>serial_out := serial_out st @ [''ERR'']\<rparr>) \<and>
            (\<forall>k<NUM_RELAYS. RELAY_PINS ! k = pin \<longrightarrow>
               handleCommand brd cmd now st =
                 st\<lparr>relayOnAt := (relayOnAt st)[k := now + d],
                    relayOffAt := (relayOffAt st)[k := now + d + u],
                    serial_out := serial_out st @ [''OK'']\<rparr> \<and>
               (wf_state st \<longrightarrow>
                  relayOnAt (handleCommand brd cmd now st) ! k = now + d \<and>
                  relayOffAt (handleCommand brd cmd now st) ! k =
                    relayOnAt (handleCommand brd cmd now st) ! k + u)))"
proof -
  note hc = handleCommand_relay_on_overwrite [OF assms, of brd now st]
  have unknown: "handleCommand brd cmd now st = st\<lparr>serial_out := serial_out st @ [''ERR'']\<rparr>"
    if "relay_fields brd cmd = Some (pin, d, u)" "pin \<notin> set RELAY_PINS" for pin d u
    using that by (simp add: hc relay_on_overwrite_loop_unknown println_def)
  have found: "handleCommand brd cmd now st =
      st\<lparr>relayOnAt := (relayOnAt st)[k := now + d],
         relayOffAt := (relayOffAt st)[k := now + d + u],
         serial_out := serial_out st @ [''OK'']\<rparr>"
    if "relay_fields brd cmd = Some (pin, d, u)" "k < NUM_RELAYS" "RELAY_PINS ! k = pin"
    for pin d u k
    using that by (simp add: hc relay_on_overwrite_loop_found println_def)
  have reply: "\<exists>r\<in>{''OK'', ''ERR''}.
      serial_out (handleCommand brd cmd now st) = serial_out st @ [r]"
  proof (cases "relay_fields brd cmd")
    case None
    then show ?thesis by (simp add: hc println_def)
  next
    case (Some f)
    obtain pin d u where f: "f = (pin, d, u)" by (cases f)
    show ?thesis
    proof (cases "pin \<in> set RELAY_PINS")
      case True
      then obtain k where "k < NUM_RELAYS" "RELAY_PINS ! k = pin"
        by (auto simp: in_set_conv_nth NUM_RELAYS_def)
      with Some f found [of pin d u k] show ?thesis by simp
    next
      case False
      with Some f unknown [of pin d u] show ?thesis by simp
    qed
  qed
  have vals: "relayOnAt (handleCommand brd cmd now st) ! k = now + d \<and>
      relayOffAt (handleCommand brd cmd now st) ! k =
        relayOnAt (handleCommand brd cmd now st) ! k + u"
    if "relay_fields brd cmd = Some (pin, d, u)" "k < NUM_RELAYS" "RELAY_PINS ! k = pin"
      "wf_state st" for pin d u k
    using that by (simp add: found [OF that(1-3)] wf_state_def)
  from reply unknown found vals show ?thesis by blast
qed

theorem relay_on_overwrite_never_busy_witness:
  "(let st = handleCommand avr_board ''RELAY_ON;13;0;100'' 7 boot_state
    in startsWith ''RELAY_ON_OVERWRITE;13;5;100'' ''RELAY_ON_OVERWRITE;'' \<and>
       relay_fields avr_board ''RELAY_ON_OVERWRITE;13;5;100'' = Some (13, 5, 100) \<and>
       (4::nat) < NUM_RELAYS \<and> RELAY_PINS ! 4 = 13 \<and> wf_state st \<and>
       relayOnAt st ! 4 = 7 \<and> relayOffAt st ! 4 = 107 \<and>
       handleCommand avr_board ''RELAY_ON_OVERWRITE;13;5;100'' 50 st =
         st\<lparr>relayOnAt := (relayOnAt st)[4 := 55], relayOffAt := (relayOffAt st)[4 := 155],
            serial_out := serial_out st @ [''OK'']\<rparr> \<and>
       relayOnAt (handleCommand avr_board ''RELAY_ON_OVERWRITE;13;5;100'' 50 st) ! 4 = 55 \<and>
       relayOffAt (handleCommand avr_board ''RELAY_ON_OVERWRITE;13;5;100'' 50 st) ! 4 = 155 \<and>
       startsWith ''RELAY_ON_OVERWRITE;99;1;1'' ''RELAY_ON_OVERWRITE;'' \<and>
       relay_fields avr_board ''RELAY_ON_OVERWRITE;99;1;1'' = Some (99, 1, 1) \<and>
       99 \<notin> set RELAY_PINS \<and>
       handleCommand avr_board ''RELAY_ON_OVERWRITE;99;1;1'' 50 st =
         st\<lparr>serial_out := serial_out st @ [''ERR'']\<rparr>)"
proof -
  let ?st = "handleCommand avr_board ''RELAY_ON;13;0;100'' 7 boot_state"
  have c1: "startsWith ''RELAY_ON_OVERWRITE;13;5;100'' ''RELAY_ON_OVERWRITE;''" by code_simp
  have f1: "relay_fields avr_board ''RELAY_ON_OVERWRITE;13;5;100'' = Some (13, 5, 100)"
    by code_simp
  have k: "(4::nat) < NUM_RELAYS" "RELAY_PINS ! 4 = 13" by code_simp+
  have wf: "wf_state ?st" by code_simp
  have old: "relayOnAt ?st ! 4 = 7" "relayOffAt ?st ! 4 = 107" by code_simp+
  have c2: "startsWith ''RELAY_ON_OVERWRITE;99;1;1'' ''RELAY_ON_OVERWRITE;''" by code_simp
  have f2: "relay_fields avr_board ''RELAY_ON_OVERWRITE;99;1;1'' = Some (99, 1, 1)"
    by code_simp
  have u: "99 \<notin> set RELAY_PINS" by code_simp
  from relay_on_overwrite_never_busy [OF c1, of avr_board 50 ?st] f1 k wf
  have a: "handleCommand avr_board ''RELAY_ON_OVERWRITE;13;5;100'' 50 ?st =
         ?st\<lparr>relayOnAt := (relayOnAt ?st)[4 := 50 + 5], relayOffAt := (relayOffAt ?st)[4 := 50 + 5 + 100],
            serial_out := serial_out ?st @ [''OK'']\<rparr> \<and>
       relayOnAt (handleCommand avr_board ''RELAY_ON_OVERWRITE;13;5;100'' 50 ?st) ! 4 = 50 + 5 \<and>
       relayOffAt (handleCommand avr_board ''RELAY_ON_OVERWRITE;13;5;100'' 50 ?st) ! 4 =
         relayOnAt (handleCommand avr_board ''RELAY_ON_OVERWRITE;13;5;100'' 50 ?st) ! 4 + 100"
    by blast
  from relay_on_overwrite_never_busy [OF c2, of avr_board 50 ?st] f2 u
  have b: "handleCommand avr_board ''RELAY_ON_OVERWRITE;99;1;1'' 50 ?st =
         ?st\<lparr>serial_out := serial_out ?st @ [''ERR'']\<rparr>"
    by blast
  have e: "(50::u32) + 5 = 55" "(55::u32) + 100 = 155" by simp_all
  note a = a [unfolded e]
  from a have a1: "handleCommand avr_board ''RELAY_ON_OVERWRITE;13;5;100'' 50 ?st =
         ?st\<lparr>relayOnAt := (relayOnAt ?st)[4 := 55], relayOffAt := (relayOffAt ?st)[4 := 155],
            serial_out := serial_out ?st @ [''OK'']\<rparr>"
    by (rule conjunct1)
  from a have a2:
    "relayOnAt (handleCommand avr_board ''RELAY_ON_OVERWRITE;13;5;100'' 50 ?st) ! 4 = 55"
    by blast
  from a have "relayOffAt (handleCommand avr_board ''RELAY_ON_OVERWRITE;13;5;100'' 50 ?st) ! 4 =
      relayOnAt (handleCommand avr_board ''RELAY_ON_OVERWRITE;13;5;100'' 50 ?st) ! 4 + 100"
    by blast
  with a2 have a3:
    "relayOffAt (handleCommand avr_board ''RELAY_ON_OVERWRITE;13;5;100'' 50 ?st) ! 4 = 155"
    by simp
  note a' = a1 a2 a3
  from c1 f1 k wf old a' c2 f2 u b show ?thesis
    unfolding Let_def by blast
qed

subsection \<open>What a scheduler pass fires\<close>

lemma writes_since_scheduler:
  "wf_state st \<Longrightarrow>
   writes_since st (scheduler now st) = concat (map (due_writes now st) [0..<NUM_RELAYS])"
  by (simp add: scheduler_eq writes_since_def)

lemma relay_level_simps [simp]: "relay_level True = False" "relay_level False = True"
  by (simp_all add: relay_level_def RELAYS_ACTIVE_LOW_def)

lemma in_due_writes:
  "(p, l) \<in> set (due_writes now st j) \<longleftrightarrow>
     p = RELAY_PINS ! j \<and> (if l then off_due now st j else on_due now st j)"
  by (auto simp: due_writes_def)

lemma in_scheduler_writes:
  assumes "wf_state st" "k < NUM_RELAYS"
  shows "(RELAY_PINS ! k, l) \<in> set (writes_since st (scheduler now st)) \<longleftrightarrow>
     (if l then off_due now st k else on_due now st k)"
proof -
  have "(RELAY_PINS ! k, l) \<in> set (writes_since st (scheduler now st)) \<longleftrightarrow>
      (\<exists>j<NUM_RELAYS. (RELAY_PINS ! k, l) \<in> set (due_writes now st j))"
    using assms by (auto simp: writes_since_scheduler)
  also have "\<dots> \<longleftrightarrow> (RELAY_PINS ! k, l) \<in> set (due_writes now st k)"
    using assms RELAY_PINS_unique [of _ k] by (auto simp: in_due_writes)
  finally show ?thesis by (simp add: in_due_writes)
qed

text \<open>
  With \<open>relayOnAt\<close> at \<open>0xFFFFFFF0\<close> and \<open>now\<close> wrapped to 5 the wrap-safe test holds,
  and the pass at 5 leaves the whole state as it was.
\<close>

theorem scheduler_wrap_counterexample:
  "spec_wrap_safe_due 5 (relayOnAt armed_before_wrap ! 0) \<and>
   relayOnAt armed_before_wrap ! 0 = 0xFFFFFFF0 \<and>
   scheduler 5 armed_before_wrap = armed_before_wrap"
  by code_simp

text \<open>
  Claim C3, amended. The scheduler compares with the plain unsigned \<^verbatim>\<open>>=\<close> of 32-bit
  values, not with a wrap-safe difference: a pass at time \<open>now\<close> fires the on-transition
  (the off-transition) of a relay exactly when the stored timestamp is not 0 and is at
  most \<open>now\<close>, and then clears it. A timestamp greater than \<open>now\<close>, such as one set just
  before the counter's maximum when \<open>now\<close> has wrapped to just after zero, is not fired
  and stays stored.
\<close>

theorem scheduler_due_is_plain_comparison:
  assumes "wf_state st" and "k < NUM_RELAYS"
  shows "((RELAY_PINS ! k, relay_level True) \<in> set (writes_since st (scheduler now st)) \<longleftrightarrow>
            relayOnAt st ! k \<noteq> 0 \<and> relayOnAt st ! k \<le> now) \<and>
         ((RELAY_PINS ! k, relay_level False) \<in> set (writes_since st (scheduler now st)) \<longleftrightarrow>
            relayOffAt st ! k \<noteq> 0 \<and> relayOffAt st ! k \<le> now) \<and>
         relayOnAt (scheduler now st) ! k =
           (if relayOnAt st ! k \<noteq> 0 \<and> relayOnAt st ! k \<le> now then 0 else relayOnAt st ! k) \<and>
         relayOffAt (scheduler now st) ! k =
           (if relayOffAt st ! k \<noteq> 0 \<and> relayOffAt st ! k \<le> now then 0 else relayOffAt st ! k) \<and>
         (now < relayOnAt st ! k \<longrightarrow>
            (RELAY_PINS ! k, relay_level True) \<notin> set (writes_since st (scheduler now st)) \<and>
            relayOnAt (scheduler now st) ! k = relayOnAt st ! k)"
proof -
  have a: "(RELAY_PINS ! k, relay_level True) \<in> set (writes_since st (scheduler now st)) \<longleftrightarrow>
      relayOnAt st ! k \<noteq> 0 \<and> relayOnAt st ! k \<le> now"
    using in_scheduler_writes [OF assms, of False now] by (simp add: on_due_def)
  have b: "(RELAY_PINS ! k, relay_level False) \<in> set (writes_since st (scheduler now st)) \<longleftrightarrow>
      relayOffAt st ! k \<noteq> 0 \<and> relayOffAt st ! k \<le> now"
    using in_scheduler_writes [OF assms, of True now] by (simp add: off_due_def)
  have c: "relayOnAt (scheduler now st) ! k =
      (if relayOnAt st ! k \<noteq> 0 \<and> relayOnAt st ! k \<le> now then 0 else relayOnAt st ! k)"
    using assms by (auto simp: scheduler_nth)
  have d: "relayOffAt (scheduler now st) ! k =
      (if relayOffAt st ! k \<noteq> 0 \<and> relayOffAt st ! k \<le> now then 0 else relayOffAt st ! k)"
    using assms by (auto simp: scheduler_nth)
  have e: "(RELAY_PINS ! k, relay_level True) \<notin> set (writes_since st (scheduler now st)) \<and>
      relayOnAt (scheduler now st) ! k = relayOnAt st ! k" if "now < relayOnAt st ! k"
  proof -
    from that have "\<not> relayOnAt st ! k \<le> now" by (simp add: not_le)
    with a c show ?thesis by simp
  qed
  from a b c d e show ?thesis by blast
qed

theorem scheduler_due_is_plain_comparison_witness:
  "wf_state armed_before_wrap \<and> (0::nat) < NUM_RELAYS \<and>
   relayOnAt armed_before_wrap ! 0 = 0xFFFFFFF0 \<and>
   5 < relayOnAt armed_before_wrap ! 0 \<and>
   (RELAY_PINS ! 0, relay_level True) \<notin>
      set (writes_since armed_before_wrap (scheduler 5 armed_before_wrap)) \<and>
   relayOnAt (scheduler 5 armed_before_wrap) ! 0 = 0xFFFFFFF0 \<and>
   (RELAY_PINS ! 0, relay_level True) \<in>
      set (writes_since armed_before_wrap (scheduler 0xFFFFFFF3 armed_before_wrap)) \<and>
   relayOnAt (scheduler 0xFFFFFFF3 armed_before_wrap) ! 0 = 0"
proof -
  have wf: "wf_state armed_before_wrap" by code_simp
  have k: "(0::nat) < NUM_RELAYS" by code_simp
  have v: "relayOnAt armed_before_wrap ! 0 = 0xFFFFFFF0" by code_simp
  have lt: "5 < relayOnAt armed_before_wrap ! 0" by (simp add: v)
  have le: "relayOnAt armed_before_wrap ! 0 \<noteq> 0 \<and> relayOnAt armed_before_wrap ! 0 \<le> 0xFFFFFFF3"
    by (simp add: v)
  from scheduler_due_is_plain_comparison [OF wf k, of 5] lt
  have a: "(RELAY_PINS ! 0, relay_level True) \<notin>
      set (writes_since armed_before_wrap (scheduler 5 armed_before_wrap))"
    "relayOnAt (scheduler 5 armed_before_wrap) ! 0 = relayOnAt armed_before_wrap ! 0"
    by blast+
  from scheduler_due_is_plain_comparison [OF wf k, of "0xFFFFFFF3"] le
  have b: "(RELAY_PINS ! 0, relay_level True) \<in>
      set (writes_since armed_before_wrap (scheduler 0xFFFFFFF3 armed_before_wrap))"
    "relayOnAt (scheduler 0xFFFFFFF3 armed_before_wrap) ! 0 = 0"
    by simp_all
  from wf k v lt a b show ?thesis by simp
qed

subsection \<open>One relay's writes in a pass\<close>

lemma on_pin_due_writes:
  assumes "k < NUM_RELAYS" "j < NUM_RELAYS"
  shows "on_pin (RELAY_PINS ! k) (due_writes now st j) = (if j = k then due_writes now st k else [])"
  using assms RELAY_PINS_unique [of k j] by (auto simp: on_pin_def due_writes_def)

lemma on_pin_append [simp]: "on_pin p (xs @ ys) = on_pin p xs @ on_pin p ys"
  by (simp add: on_pin_def)

lemma on_pin_Nil [simp]: "on_pin p [] = []"
  by (simp add: on_pin_def)

lemma on_pin_concat_due_writes:
  assumes "k < NUM_RELAYS" "n \<le> NUM_RELAYS"
  shows "on_pin (RELAY_PINS ! k) (concat (map (due_writes now st) [0..<n])) =
     (if k < n then due_writes now st k else [])"
  using assms(2)
proof (induction n)
  case 0
  then show ?case by simp
next
  case (Suc n)
  then have "n < NUM_RELAYS" by simp
  from on_pin_due_writes [OF assms(1) this, of now st] Suc show ?case
    by (auto simp: less_Suc_eq)
qed

lemma on_pin_scheduler:
  assumes "wf_state st" "k < NUM_RELAYS"
  shows "on_pin (RELAY_PINS ! k) (writes_since st (scheduler now st)) = due_writes now st k"
  using assms by (simp add: writes_since_scheduler on_pin_concat_due_writes)

lemma writes_since_trans:
  assumes "pin_writes b = pin_writes a @ writes_since a b"
    and "pin_writes c = pin_writes b @ writes_since b c"
  shows "pin_writes c = pin_writes a @ writes_since a c"
    and "writes_since a c = writes_since a b @ writes_since b c"
proof -
  from assms have *: "pin_writes c = pin_writes a @ writes_since a b @ writes_since b c"
    by simp
  then show "writes_since a c = writes_since a b @ writes_since b c"
    by (simp add: writes_since_def [of a c])
  with * show "pin_writes c = pin_writes a @ writes_since a c" by simp
qed

lemma scheduler_extends:
  "wf_state st \<Longrightarrow> pin_writes (scheduler now st) = pin_writes st @ writes_since st (scheduler now st)"
  by (simp add: writes_since_scheduler) (simp add: scheduler_eq)

lemma fold_scheduler_idle:
  assumes "wf_state st" "k < NUM_RELAYS" "relayOnAt st ! k = 0" "relayOffAt st ! k = 0"
  shows "wf_state (fold scheduler ts st) \<and>
         pin_writes (fold scheduler ts st) = pin_writes st @ writes_since st (fold scheduler ts st) \<and>
         on_pin (RELAY_PINS ! k) (writes_since st (fold scheduler ts st)) = [] \<and>
         relayOnAt (fold scheduler ts st) ! k = 0 \<and> relayOffAt (fold scheduler ts st) ! k = 0"
  using assms
proof (induction ts arbitrary: st)
  case Nil
  then show ?case by (simp add: writes_since_def)
next
  case (Cons t ts)
  let ?s = "scheduler t st"
  have s: "wf_state ?s" "relayOnAt ?s ! k = 0" "relayOffAt ?s ! k = 0"
    using Cons.prems by (simp_all add: scheduler_wf scheduler_nth)
  have w: "on_pin (RELAY_PINS ! k) (writes_since st ?s) = []"
    using Cons.prems by (simp add: on_pin_scheduler due_writes_def on_due_def off_due_def)
  note e = scheduler_extends [OF Cons.prems(1), of t]
  from Cons.IH [OF s(1) Cons.prems(2) s(2,3)]
  have IH: "wf_state (fold scheduler ts ?s)"
    "pin_writes (fold scheduler ts ?s) = pin_writes ?s @ writes_since ?s (fold scheduler ts ?s)"
    "on_pin (RELAY_PINS ! k) (writes_since ?s (fold scheduler ts ?s)) = []"
    "relayOnAt (fold scheduler ts ?s) ! k = 0" "relayOffAt (fold scheduler ts ?s) ! k = 0"
    by simp_all
  from writes_since_trans [OF e IH(2)] w IH show ?case by simp
qed


lemma armed_state:
  assumes "startsWith cmd ''RELAY_ON;'' \<or> startsWith cmd ''RELAY_ON_OVERWRITE;''"
    and "relay_fields brd cmd = Some (pin, d, u)" and "k < NUM_RELAYS" and "RELAY_PINS ! k = pin"
    and "serial_out (handleCommand brd cmd now st) = serial_out st @ [''OK'']"
  shows "handleCommand brd cmd now st =
     st\<lparr>relayOnAt := (relayOnAt st)[k := now + d],
        relayOffAt := (relayOffAt st)[k := now + d + u],
        serial_out := serial_out st @ [''OK'']\<rparr>"
  using assms(1)
proof
  assume c: "startsWith cmd ''RELAY_ON;''"
  show ?thesis
  proof (cases "now < relayOffAt st ! k")
    case True
    with c assms(2-4) have "serial_out (handleCommand brd cmd now st) = serial_out st @ [''BUSY'']"
      by (simp add: handleCommand_relay_on relay_on_loop_found println_def)
    with assms(5) show ?thesis by simp
  next
    case False
    with c assms(2-4) show ?thesis
      by (simp add: handleCommand_relay_on relay_on_loop_found println_def)
  qed
next
  assume "startsWith cmd ''RELAY_ON_OVERWRITE;''"
  with assms(2-4) show ?thesis
    by (simp add: handleCommand_relay_on_overwrite relay_on_overwrite_loop_found println_def)
qed

text \<open>
  Armed with delay 0 and duration 0 while \<^verbatim>\<open>millis()\<close> returns 0, both timestamps are 0
  and no pass writes to the pin. Armed at \<open>0xFFFFFFFF\<close>, the pass one millisecond later
  (at 0, after the wrap) writes nothing either and both timestamps stay stored.
\<close>

theorem zero_cycle_counterexample:
  "serial_out armed_at_zero = [''OK''] \<and>
   pin_writes (scheduler 0 armed_at_zero) = [] \<and>
   pin_writes (scheduler 1 armed_at_zero) = [] \<and>
   serial_out armed_at_max = [''OK''] \<and>
   pin_writes (scheduler 0 armed_at_max) = [] \<and>
   relayOnAt (scheduler 0 armed_at_max) ! 4 = 0xFFFFFFFF \<and>
   relayOffAt (scheduler 0 armed_at_max) ! 4 = 0xFFFFFFFF"
  by code_simp

text \<open>
  Claim C4, amended. In one scheduler pass the on-check of a relay comes before its
  off-check and both may fire: the writes to the relay's pin are the energizing write, if
  \<open>relayOnAt\<close> is due, followed by the de-energizing write, if \<open>relayOffAt\<close> is due.
  So after a relay command with delay 0 and duration 0 for a configured pin has been
  answered \<^verbatim>\<open>OK\<close> at a time \<open>now\<close> other than 0, a pass at a time \<open>now'\<close> with
  \<open>now \<le> now'\<close> (unsigned) energizes and then de-energizes the relay, clears both
  timestamps, and no later pass writes to that pin or sets a timestamp of that relay.
\<close>

theorem zero_delay_zero_duration_cycle:
  assumes "wf_state st"
    and "startsWith cmd ''RELAY_ON;'' \<or> startsWith cmd ''RELAY_ON_OVERWRITE;''"
    and "relay_fields brd cmd = Some (pin, 0, 0)" and "k < NUM_RELAYS" and "RELAY_PINS ! k = pin"
    and "serial_out (handleCommand brd cmd now st) = serial_out st @ [''OK'']"
    and "now \<noteq> 0" and "now \<le> now'"
  shows "(\<forall>t s. wf_state s \<longrightarrow>
            on_pin pin (writes_since s (scheduler t s)) =
              (if relayOnAt s ! k \<noteq> 0 \<and> relayOnAt s ! k \<le> t
               then [(pin, relay_level True)] else []) @
              (if relayOffAt s ! k \<noteq> 0 \<and> relayOffAt s ! k \<le> t
               then [(pin, relay_level False)] else [])) \<and>
         (let st1 = handleCommand brd cmd now st; st2 = scheduler now' st1
          in on_pin pin (writes_since st1 st2) =
               [(pin, relay_level True), (pin, relay_level False)] \<and>
             relayOnAt st2 ! k = 0 \<and> relayOffAt st2 ! k = 0 \<and>
             (\<forall>ts. on_pin pin (writes_since st2 (fold scheduler ts st2)) = [] \<and>
                   relayOnAt (fold scheduler ts st2) ! k = 0 \<and>
                   relayOffAt (fold scheduler ts st2) ! k = 0))"
proof -
  let ?st1 = "handleCommand brd cmd now st"
  let ?st2 = "scheduler now' ?st1"
  have gen: "on_pin pin (writes_since s (scheduler t s)) =
      (if relayOnAt s ! k \<noteq> 0 \<and> relayOnAt s ! k \<le> t then [(pin, relay_level True)] else []) @
      (if relayOffAt s ! k \<noteq> 0 \<and> relayOffAt s ! k \<le> t then [(pin, relay_level False)] else [])"
    if "wf_state s" for t s
    using on_pin_scheduler [OF that assms(4), of t] assms(5)
    by (simp add: due_writes_def on_due_def off_due_def)
  note st1 = armed_state [OF assms(2,3,4,5,6)]
  have wf1: "wf_state ?st1"
    using assms(1) by (simp add: st1 wf_state_def)
  have v: "relayOnAt ?st1 ! k = now" "relayOffAt ?st1 ! k = now"
    using assms(1,4) by (simp_all add: st1 wf_state_def)
  have a: "on_pin pin (writes_since ?st1 ?st2) = [(pin, relay_level True), (pin, relay_level False)]"
    using assms(7,8) by (simp add: gen [OF wf1] v)
  have b: "relayOnAt ?st2 ! k = 0" "relayOffAt ?st2 ! k = 0"
    using assms(4,8) wf1 by (simp_all add: scheduler_nth v)
  have wf2: "wf_state ?st2"
    using wf1 by (rule scheduler_wf)
  have c: "on_pin pin (writes_since ?st2 (fold scheduler ts ?st2)) = [] \<and>
      relayOnAt (fold scheduler ts ?st2) ! k = 0 \<and> relayOffAt (fold scheduler ts ?st2) ! k = 0"
    for ts
    using fold_scheduler_idle [OF wf2 assms(4) b, of ts] assms(5) by simp
  from gen a b c show ?thesis unfolding Let_def by blast
qed

theorem zero_delay_zero_duration_cycle_witness:
  "wf_state boot_state \<and> startsWith ''RELAY_ON;13;0;0'' ''RELAY_ON;'' \<and>
   relay_fields avr_board ''RELAY_ON;13;0;0'' = Some (13, 0, 0) \<and>
   (4::nat) < NUM_RELAYS \<and> RELAY_PINS ! 4 = 13 \<and>
   serial_out (handleCommand avr_board ''RELAY_ON;13;0;0'' 7 boot_state) =
     serial_out boot_state @ [''OK''] \<and> (7 :: u32) \<noteq> 0 \<and> (7 :: u32) \<le> 8 \<and>
   on_pin 13 (writes_since (handleCommand avr_board ''RELAY_ON;13;0;0'' 7 boot_state)
      (scheduler 8 (handleCommand avr_board ''RELAY_ON;13;0;0'' 7 boot_state))) =
     [(13, False), (13, True)] \<and>
   relayOnAt (scheduler 8 (handleCommand avr_board ''RELAY_ON;13;0;0'' 7 boot_state)) ! 4 = 0 \<and>
   relayOffAt (scheduler 8 (handleCommand avr_board ''RELAY_ON;13;0;0'' 7 boot_state)) ! 4 = 0 \<and>
   on_pin 13 (writes_since (scheduler 8 (handleCommand avr_board ''RELAY_ON;13;0;0'' 7 boot_state))
      (fold scheduler [9, 10]
         (scheduler 8 (handleCommand avr_board ''RELAY_ON;13;0;0'' 7 boot_state)))) = []"
proof -
  have wf: "wf_state boot_state" by code_simp
  have c: "startsWith ''RELAY_ON;13;0;0'' ''RELAY_ON;''" by code_simp
  have f: "relay_fields avr_board ''RELAY_ON;13;0;0'' = Some (13, 0, 0)" by code_simp
  have k: "(4::nat) < NUM_RELAYS" "RELAY_PINS ! 4 = 13" by code_simp+
  have ok: "serial_out (handleCommand avr_board ''RELAY_ON;13;0;0'' 7 boot_state) =
     serial_out boot_state @ [''OK'']" by code_simp
  have t: "(7 :: u32) \<noteq> 0" "(7 :: u32) \<le> 8" by simp_all
  from c have c': "startsWith ''RELAY_ON;13;0;0'' ''RELAY_ON;'' \<or>
      startsWith ''RELAY_ON;13;0;0'' ''RELAY_ON_OVERWRITE;''" ..
  from zero_delay_zero_duration_cycle [OF wf c' f k ok t]
  have "on_pin 13 (writes_since (handleCommand avr_board ''RELAY_ON;13;0;0'' 7 boot_state)
      (scheduler 8 (handleCommand avr_board ''RELAY_ON;13;0;0'' 7 boot_state))) =
     [(13, relay_level True), (13, relay_level False)] \<and>
   relayOnAt (scheduler 8 (handleCommand avr_board ''RELAY_ON;13;0;0'' 7 boot_state)) ! 4 = 0 \<and>
   relayOffAt (scheduler 8 (handleCommand avr_board ''RELAY_ON;13;0;0'' 7 boot_state)) ! 4 = 0 \<and>
   on_pin 13 (writes_since (scheduler 8 (handleCommand avr_board ''RELAY_ON;13;0;0'' 7 boot_state))
      (fold scheduler [9, 10]
         (scheduler 8 (handleCommand avr_board ''RELAY_ON;13;0;0'' 7 boot_state)))) = []"
    unfolding Let_def by blast
  with wf c f k ok t show ?thesis by simp
qed

subsection \<open>The order of the two timestamps\<close>

text \<open>
  A command with duration 0 stores the same nonzero value in both arrays, and a command
  whose off-time passes \<open>2 ^ 32\<close> stores an off-time below the on-time.
\<close>

theorem off_after_on_counterexample:
  "spec_off_after_on boot_state \<and>
   \<not> spec_off_after_on (handleCommand avr_board ''RELAY_ON;13;5;0'' 1 boot_state) \<and>
   off_not_before_on boot_state \<and>
   \<not> off_not_before_on (handleCommand avr_board ''RELAY_ON;13;0;100'' 0xFFFFFFF6 boot_state)"
  by code_simp

lemma relay_on_loop_cases:
  "relay_on_loop 0 pin d u now st = println ''ERR'' st \<or>
   relay_on_loop 0 pin d u now st = println ''BUSY'' st \<or>
   (\<exists>k<NUM_RELAYS. RELAY_PINS ! k = pin \<and>
      relay_on_loop 0 pin d u now st =
        println ''OK'' (st\<lparr>relayOnAt := (relayOnAt st)[k := now + d],
                           relayOffAt := (relayOffAt st)[k := now + d + u]\<rparr>))"
proof (cases "pin \<in> set RELAY_PINS")
  case True
  then obtain k where k: "k < NUM_RELAYS" "RELAY_PINS ! k = pin"
    by (auto simp: in_set_conv_nth NUM_RELAYS_def)
  from relay_on_loop_found [OF k, of d u now st] k show ?thesis
    by (cases "now < relayOffAt st ! k") auto
next
  case False
  then show ?thesis by (simp add: relay_on_loop_unknown)
qed

lemma relay_on_overwrite_loop_cases:
  "relay_on_overwrite_loop 0 pin d u now st = println ''ERR'' st \<or>
   (\<exists>k<NUM_RELAYS. RELAY_PINS ! k = pin \<and>
      relay_on_overwrite_loop 0 pin d u now st =
        println ''OK'' (st\<lparr>relayOnAt := (relayOnAt st)[k := now + d],
                           relayOffAt := (relayOffAt st)[k := now + d + u]\<rparr>))"
proof (cases "pin \<in> set RELAY_PINS")
  case True
  then obtain k where k: "k < NUM_RELAYS" "RELAY_PINS ! k = pin"
    by (auto simp: in_set_conv_nth NUM_RELAYS_def)
  from relay_on_overwrite_loop_found [OF k, of d u now st] k show ?thesis
    by auto
next
  case False
  then show ?thesis by (simp add: relay_on_overwrite_loop_unknown)
qed

text \<open>What a command can do to the two arrays.\<close>

lemma handleCommand_schedule:
  "(relayOnAt (handleCommand brd cmd now st) = relayOnAt st \<and>
    relayOffAt (handleCommand brd cmd now st) = relayOffAt st) \<or>
   (\<exists>k pin d u. k < NUM_RELAYS \<and> relay_fields brd cmd = Some (pin, d, u) \<and>
      relayOnAt (handleCommand brd cmd now st) = (relayOnAt st)[k := now + d] \<and>
      relayOffAt (handleCommand brd cmd now st) = (relayOffAt st)[k := now + d + u])"
proof (cases "relay_fields brd cmd")
  case None
  then show ?thesis
    by (simp add: handleCommand_def println_def digitalWrite_def)
next
  case (Some f)
  obtain pin d u where f: "f = (pin, d, u)" by (cases f)
  from relay_on_loop_cases [of pin d u now st]
  have a: "(relayOnAt (relay_on_loop 0 pin d u now st) = relayOnAt st \<and>
      relayOffAt (relay_on_loop 0 pin d u now st) = relayOffAt st) \<or>
     (\<exists>k<NUM_RELAYS.
        relayOnAt (relay_on_loop 0 pin d u now st) = (relayOnAt st)[k := now + d] \<and>
        relayOffAt (relay_on_loop 0 pin d u now st) = (relayOffAt st)[k := now + d + u])"
    by (auto simp: println_def)
  from relay_on_overwrite_loop_cases [of pin d u now st]
  have b: "(relayOnAt (relay_on_overwrite_loop 0 pin d u now st) = relayOnAt st \<and>
      relayOffAt (relay_on_overwrite_loop 0 pin d u now st) = relayOffAt st) \<or>
     (\<exists>k<NUM_RELAYS.
        relayOnAt (relay_on_overwrite_loop 0 pin d u now st) = (relayOnAt st)[k := now + d] \<and>
        relayOffAt (relay_on_overwrite_loop 0 pin d u now st) = (relayOffAt st)[k := now + d + u])"
    by (auto simp: println_def)
  from a b Some f show ?thesis
    by (auto simp: handleCommand_def println_def digitalWrite_def)
qed

lemma handleCommand_wf: "wf_state st \<Longrightarrow> wf_state (handleCommand brd cmd now st)"
  using handleCommand_schedule [of brd cmd now st] by (auto simp: wf_state_def)


text \<open>
  Claim C5, amended. Whenever both timestamps of a relay are present, \<open>relayOffAt\<close> is
  not below \<open>relayOnAt\<close> (they are equal after a command with duration 0). This is
  preserved by every scheduler pass, and by every command whose stored on-time plus
  duration does not exceed the 32-bit range.
\<close>

theorem off_not_before_on_preserved:
  assumes "wf_state st" and "off_not_before_on st"
  shows "((\<forall>pin d u. relay_fields brd cmd = Some (pin, d, u) \<longrightarrow>
             unat (now + d) + unat u < 2 ^ 32) \<longrightarrow>
            off_not_before_on (handleCommand brd cmd now st)) \<and>
         off_not_before_on (scheduler now st) \<and>
         wf_state (handleCommand brd cmd now st) \<and> wf_state (scheduler now st)"
proof -
  have inv: "relayOnAt st ! j \<le> relayOffAt st ! j"
    if "j < NUM_RELAYS" "relayOnAt st ! j \<noteq> 0" "relayOffAt st ! j \<noteq> 0" for j
    using assms(2) that by (simp add: off_not_before_on_def)
  have len: "length (relayOnAt st) = NUM_RELAYS" "length (relayOffAt st) = NUM_RELAYS"
    using assms(1) by (simp_all add: wf_state_def)
  have cmd: "off_not_before_on (handleCommand brd cmd now st)"
    if nowrap: "\<forall>pin d u. relay_fields brd cmd = Some (pin, d, u) \<longrightarrow>
      unat (now + d) + unat u < 2 ^ 32"
    using handleCommand_schedule [of brd cmd now st]
  proof (elim disjE exE conjE)
    assume "relayOnAt (handleCommand brd cmd now st) = relayOnAt st"
      "relayOffAt (handleCommand brd cmd now st) = relayOffAt st"
    with assms(2) show ?thesis by (simp add: off_not_before_on_def)
  next
    fix k pin d u
    assume k: "k < NUM_RELAYS" and f: "relay_fields brd cmd = Some (pin, d, u)"
      and on: "relayOnAt (handleCommand brd cmd now st) = (relayOnAt st)[k := now + d]"
      and off: "relayOffAt (handleCommand brd cmd now st) = (relayOffAt st)[k := now + d + u]"
    from nowrap f have "unat (now + d) + unat u < 2 ^ 32" by blast
    then have le: "now + d \<le> now + d + u" by (simp add: no_olen_add_nat)
    show ?thesis
      unfolding off_not_before_on_def
    proof (intro ballI impI)
      fix j assume j: "j \<in> {0..<NUM_RELAYS}"
        and nz: "relayOnAt (handleCommand brd cmd now st) ! j \<noteq> 0 \<and>
          relayOffAt (handleCommand brd cmd now st) ! j \<noteq> 0"
      show "relayOnAt (handleCommand brd cmd now st) ! j \<le>
          relayOffAt (handleCommand brd cmd now st) ! j"
      proof (cases "j = k")
        case True
        with k len le show ?thesis by (simp add: on off)
      next
        case False
        with j nz inv [of j] show ?thesis by (simp add: on off)
      qed
    qed
  qed
  have sch: "off_not_before_on (scheduler now st)"
    unfolding off_not_before_on_def
  proof (intro ballI impI)
    fix j assume j: "j \<in> {0..<NUM_RELAYS}"
      and nz: "relayOnAt (scheduler now st) ! j \<noteq> 0 \<and> relayOffAt (scheduler now st) ! j \<noteq> 0"
    from j have j': "j < NUM_RELAYS" by simp
    from nz inv [OF j'] show "relayOnAt (scheduler now st) ! j \<le> relayOffAt (scheduler now st) ! j"
      by (simp add: scheduler_nth [OF assms(1) j'] split: if_splits)
  qed
  from cmd sch handleCommand_wf [OF assms(1)] scheduler_wf [OF assms(1)] show ?thesis
    by blast
qed

theorem off_not_before_on_preserved_witness:
  "wf_state boot_state \<and> off_not_before_on boot_state \<and>
   relay_fields avr_board ''RELAY_ON;13;5;100'' = Some (13, 5, 100) \<and>
   unat ((7 :: u32) + 5) + unat (100 :: u32) < 2 ^ 32 \<and>
   relayOnAt (handleCommand avr_board ''RELAY_ON;13;5;100'' 7 boot_state) ! 4 = 12 \<and>
   relayOffAt (handleCommand avr_board ''RELAY_ON;13;5;100'' 7 boot_state) ! 4 = 112 \<and>
   off_not_before_on (handleCommand avr_board ''RELAY_ON;13;5;100'' 7 boot_state) \<and>
   wf_state (handleCommand avr_board ''RELAY_ON;13;5;100'' 7 boot_state) \<and>
   off_not_before_on (scheduler 50 (handleCommand avr_board ''RELAY_ON;13;5;100'' 7 boot_state))"
proof -
  have wf: "wf_state boot_state" by code_simp
  have i: "off_not_before_on boot_state" by code_simp
  have f: "relay_fields avr_board ''RELAY_ON;13;5;100'' = Some (13, 5, 100)" by code_simp
  have n: "unat ((7 :: u32) + 5) + unat (100 :: u32) < 2 ^ 32" by simp
  have v: "relayOnAt (handleCommand avr_board ''RELAY_ON;13;5;100'' 7 boot_state) ! 4 = 12"
    "relayOffAt (handleCommand avr_board ''RELAY_ON;13;5;100'' 7 boot_state) ! 4 = 112"
    by code_simp+
  from f n have "\<forall>pin d u. relay_fields avr_board ''RELAY_ON;13;5;100'' = Some (pin, d, u) \<longrightarrow>
      unat (7 + d) + unat u < 2 ^ 32"
    by simp
  with off_not_before_on_preserved [OF wf i, of avr_board "''RELAY_ON;13;5;100''" 7]
  have a: "off_not_before_on (handleCommand avr_board ''RELAY_ON;13;5;100'' 7 boot_state)"
    "wf_state (handleCommand avr_board ''RELAY_ON;13;5;100'' 7 boot_state)"
    by blast+
  from off_not_before_on_preserved [OF a(2,1), where now = 50]
  have b: "off_not_before_on (scheduler 50 (handleCommand avr_board ''RELAY_ON;13;5;100'' 7 boot_state))"
    by blast
  from wf i f n v a b show ?thesis by blast
qed

subsection \<open>A stored 0 is never fired\<close>

lemma fold_scheduler_zero:
  assumes "wf_state st" "k < NUM_RELAYS"
    "(if l then relayOffAt st ! k else relayOnAt st ! k) = 0"
  shows "wf_state (fold scheduler ts st) \<and>
         pin_writes (fold scheduler ts st) = pin_writes st @ writes_since st (fold scheduler ts st) \<and>
         (RELAY_PINS ! k, l) \<notin> set (writes_since st (fold scheduler ts st)) \<and>
         (if l then relayOffAt (fold scheduler ts st) ! k
          else relayOnAt (fold scheduler ts st) ! k) = 0"
  using assms
proof (induction ts arbitrary: st)
  case Nil
  then show ?case by (cases l) (simp_all add: writes_since_def)
next
  case (Cons t ts)
  let ?s = "scheduler t st"
  have s: "wf_state ?s" "(if l then relayOffAt ?s ! k else relayOnAt ?s ! k) = 0"
    using Cons.prems by (simp_all add: scheduler_wf scheduler_nth split: if_splits)
  have w: "(RELAY_PINS ! k, l) \<notin> set (writes_since st ?s)"
    using Cons.prems
    by (simp add: in_scheduler_writes on_due_def off_due_def split: if_splits)
  note e = scheduler_extends [OF Cons.prems(1), of t]
  from Cons.IH [OF s(1) Cons.prems(2) s(2)]
  have IH: "wf_state (fold scheduler ts ?s)"
    "pin_writes (fold scheduler ts ?s) = pin_writes ?s @ writes_since ?s (fold scheduler ts ?s)"
    "(RELAY_PINS ! k, l) \<notin> set (writes_since ?s (fold scheduler ts ?s))"
    "(if l then relayOffAt (fold scheduler ts ?s) ! k
      else relayOnAt (fold scheduler ts ?s) ! k) = 0"
    by simp_all
  from writes_since_trans [OF e IH(2)] w IH show ?case by (cases l) simp_all
qed

text \<open>
  Claim C10. The stored value 0 stands for "nothing pending": a scheduler pass writes
  the energizing (de-energizing) level to a relay's pin only when its \<open>relayOnAt\<close>
  (\<open>relayOffAt\<close>) is not 0. So when a relay command is answered \<^verbatim>\<open>OK\<close> and the on-time
  \<open>now + delayMs\<close> (the off-time \<open>now + delayMs + durMs\<close>) is 0 modulo \<open>2 ^ 32\<close>, the
  stored timestamp is 0, as when nothing is pending, and no sequence of later passes
  ever energizes (de-energizes) the relay for it.
\<close>

theorem zero_deadline_never_fires:
  assumes "wf_state st"
    and "startsWith cmd ''RELAY_ON;'' \<or> startsWith cmd ''RELAY_ON_OVERWRITE;''"
    and "relay_fields brd cmd = Some (pin, d, u)" and "k < NUM_RELAYS" and "RELAY_PINS ! k = pin"
    and "serial_out (handleCommand brd cmd now st) = serial_out st @ [''OK'']"
  shows "(\<forall>t s. wf_state s \<longrightarrow>
            ((pin, relay_level True) \<in> set (writes_since s (scheduler t s)) \<longrightarrow>
               relayOnAt s ! k \<noteq> 0) \<and>
            ((pin, relay_level False) \<in> set (writes_since s (scheduler t s)) \<longrightarrow>
               relayOffAt s ! k \<noteq> 0)) \<and>
         (let st1 = handleCommand brd cmd now st
          in (now + d = 0 \<longrightarrow>
                relayOnAt st1 ! k = 0 \<and>
                (\<forall>ts. (pin, relay_level True) \<notin> set (writes_since st1 (fold scheduler ts st1)) \<and>
                      relayOnAt (fold scheduler ts st1) ! k = 0)) \<and>
             (now + d + u = 0 \<longrightarrow>
                relayOffAt st1 ! k = 0 \<and>
                (\<forall>ts. (pin, relay_level False) \<notin> set (writes_since st1 (fold scheduler ts st1)) \<and>
                      relayOffAt (fold scheduler ts st1) ! k = 0)))"
proof -
  let ?st1 = "handleCommand brd cmd now st"
  have gen: "((pin, relay_level True) \<in> set (writes_since s (scheduler t s)) \<longrightarrow>
               relayOnAt s ! k \<noteq> 0) \<and>
            ((pin, relay_level False) \<in> set (writes_since s (scheduler t s)) \<longrightarrow>
               relayOffAt s ! k \<noteq> 0)" if "wf_state s" for t s
    using in_scheduler_writes [OF that assms(4), of False t]
      in_scheduler_writes [OF that assms(4), of True t] assms(5)
    by (simp add: on_due_def off_due_def)
  note st1 = armed_state [OF assms(2,3,4,5,6)]
  have wf1: "wf_state ?st1"
    using assms(1) by (simp add: st1 wf_state_def)
  have v: "relayOnAt ?st1 ! k = now + d" "relayOffAt ?st1 ! k = now + d + u"
    using assms(1,4) by (simp_all add: st1 wf_state_def)
  have on: "relayOnAt ?st1 ! k = 0 \<and>
      (\<forall>ts. (pin, relay_level True) \<notin> set (writes_since ?st1 (fold scheduler ts ?st1)) \<and>
            relayOnAt (fold scheduler ts ?st1) ! k = 0)" if "now + d = 0"
    using fold_scheduler_zero [OF wf1 assms(4), of False] that v assms(5) by simp
  have off: "relayOffAt ?st1 ! k = 0 \<and>
      (\<forall>ts. (pin, relay_level False) \<notin> set (writes_since ?st1 (fold scheduler ts ?st1)) \<and>
            relayOffAt (fold scheduler ts ?st1) ! k = 0)" if "now + d + u = 0"
    using fold_scheduler_zero [OF wf1 assms(4), of True] that v assms(5) by simp
  from gen on off show ?thesis unfolding Let_def by blast
qed


theorem zero_deadline_never_fires_witness:
  "wf_state boot_state \<and> (4::nat) < NUM_RELAYS \<and> RELAY_PINS ! 4 = 13 \<and>
   startsWith ''RELAY_ON;13;6;5'' ''RELAY_ON;'' \<and>
   relay_fields avr_board ''RELAY_ON;13;6;5'' = Some (13, 6, 5) \<and>
   serial_out (handleCommand avr_board ''RELAY_ON;13;6;5'' 0xFFFFFFFA boot_state) =
     serial_out boot_state @ [''OK''] \<and>
   (0xFFFFFFFA :: u32) + 6 = 0 \<and>
   relayOnAt (handleCommand avr_board ''RELAY_ON;13;6;5'' 0xFFFFFFFA boot_state) ! 4 = 0 \<and>
   (13, relay_level True) \<notin>
     set (writes_since (handleCommand avr_board ''RELAY_ON;13;6;5'' 0xFFFFFFFA boot_state)
       (fold scheduler [0xFFFFFFFB, 0, 3, 7]
          (handleCommand avr_board ''RELAY_ON;13;6;5'' 0xFFFFFFFA boot_state))) \<and>
   startsWith ''RELAY_ON;13;0;6'' ''RELAY_ON;'' \<and>
   relay_fields avr_board ''RELAY_ON;13;0;6'' = Some (13, 0, 6) \<and>
   serial_out (handleCommand avr_board ''RELAY_ON;13;0;6'' 0xFFFFFFFA boot_state) =
     serial_out boot_state @ [''OK''] \<and>
   (0xFFFFFFFA :: u32) + 0 + 6 = 0 \<and>
   relayOffAt (handleCommand avr_board ''RELAY_ON;13;0;6'' 0xFFFFFFFA boot_state) ! 4 = 0 \<and>
   (13, relay_level False) \<notin>
     set (writes_since (handleCommand avr_board ''RELAY_ON;13;0;6'' 0xFFFFFFFA boot_state)
       (fold scheduler [0xFFFFFFFB, 0, 3, 7]
          (handleCommand avr_board ''RELAY_ON;13;0;6'' 0xFFFFFFFA boot_state)))"
proof -
  have wf: "wf_state boot_state" by code_simp
  have k: "(4::nat) < NUM_RELAYS" "RELAY_PINS ! 4 = 13" by code_simp+
  have c1: "startsWith ''RELAY_ON;13;6;5'' ''RELAY_ON;''" by code_simp
  have f1: "relay_fields avr_board ''RELAY_ON;13;6;5'' = Some (13, 6, 5)" by code_simp
  have ok1: "serial_out (handleCommand avr_board ''RELAY_ON;13;6;5'' 0xFFFFFFFA boot_state) =
     serial_out boot_state @ [''OK'']" by code_simp
  have z1: "(0xFFFFFFFA :: u32) + 6 = 0" by simp
  have c2: "startsWith ''RELAY_ON;13;0;6'' ''RELAY_ON;''" by code_simp
  have f2: "relay_fields avr_board ''RELAY_ON;13;0;6'' = Some (13, 0, 6)" by code_simp
  have ok2: "serial_out (handleCommand avr_board ''RELAY_ON;13;0;6'' 0xFFFFFFFA boot_state) =
     serial_out boot_state @ [''OK'']" by code_simp
  have z2: "(0xFFFFFFFA :: u32) + 0 + 6 = 0" by simp
  from c1 have c1': "startsWith ''RELAY_ON;13;6;5'' ''RELAY_ON;'' \<or>
      startsWith ''RELAY_ON;13;6;5'' ''RELAY_ON_OVERWRITE;''" ..
  from c2 have c2': "startsWith ''RELAY_ON;13;0;6'' ''RELAY_ON;'' \<or>
      startsWith ''RELAY_ON;13;0;6'' ''RELAY_ON_OVERWRITE;''" ..
  from zero_deadline_never_fires [OF wf c1' f1 k ok1] z1
  have a: "relayOnAt (handleCommand avr_board ''RELAY_ON;13;6;5'' 0xFFFFFFFA boot_state) ! 4 = 0"
    "(13, relay_level True) \<notin>
     set (writes_since (handleCommand avr_board ''RELAY_ON;13;6;5'' 0xFFFFFFFA boot_state)
       (fold scheduler [0xFFFFFFFB, 0, 3, 7]
          (handleCommand avr_board ''RELAY_ON;13;6;5'' 0xFFFFFFFA boot_state)))"
    unfolding Let_def by blast+
  from zero_deadline_never_fires [OF wf c2' f2 k ok2] z2
  have b: "relayOffAt (handleCommand avr_board ''RELAY_ON;13;0;6'' 0xFFFFFFFA boot_state) ! 4 = 0"
    "(13, relay_level False) \<notin>
     set (writes_since (handleCommand avr_board ''RELAY_ON;13;0;6'' 0xFFFFFFFA boot_state)
       (fold scheduler [0xFFFFFFFB, 0, 3, 7]
          (handleCommand avr_board ''RELAY_ON;13;0;6'' 0xFFFFFFFA boot_state)))"
    unfolding Let_def by blast+
  from wf k c1 f1 ok1 z1 a c2 f2 ok2 z2 b show ?thesis by blast
qed

subsection \<open>Keyword lines\<close>

lemma tolower_c_zero [simp]: "tolower_c CHR 0x00 = CHR 0x00"
  by (simp add: tolower_c_def isupper_c_def)

lemma tolower_c_NUL [simp]: "tolower_c c = CHR 0x00 \<longleftrightarrow> c = CHR 0x00"
proof
  assume z: "tolower_c c = CHR 0x00"
  show "c = CHR 0x00"
  proof (cases "isupper_c c")
    case True
    with z have "char_of ((of_char c :: nat) + 32) = CHR 0x00"
      by (simp add: tolower_c_def)
    then have "(of_char (char_of ((of_char c :: nat) + 32)) :: nat) = of_char CHR 0x00"
      by (simp only:)
    then have "((of_char c :: nat) + 32) mod 256 = 0" by simp
    with True show ?thesis by (simp add: isupper_c_def)
  next
    case False
    with z show ?thesis by (simp add: tolower_c_def)
  qed
qed simp

lemma eqic_loop_text:
  "CHR 0x00 \<notin> set s \<Longrightarrow> length s = length t \<Longrightarrow>
   eqic_loop s t \<longleftrightarrow> map tolower_c s = map tolower_c t"
  by (induction s arbitrary: t) (auto split: list.splits)

lemma equalsIgnoreCase_text:
  "CHR 0x00 \<notin> set s \<Longrightarrow> equalsIgnoreCase s t \<longleftrightarrow> case_variation s t"
  by (auto simp: equalsIgnoreCase_def case_variation_def eqic_loop_text)

lemma case_variation_text:
  assumes "case_variation s t" "CHR 0x00 \<notin> set t"
  shows "CHR 0x00 \<notin> set s"
proof
  assume "CHR 0x00 \<in> set s"
  then have "tolower_c CHR 0x00 \<in> tolower_c ` set s" by (rule imageI)
  then have "CHR 0x00 \<in> set (map tolower_c s)" by simp
  with assms(1) have "CHR 0x00 \<in> tolower_c ` set t"
    by (simp add: case_variation_def)
  then obtain d where d: "CHR 0x00 = tolower_c d" "d \<in> set t" by (rule imageE)
  from d(1) have "tolower_c d = CHR 0x00" by (rule sym)
  then have "d = CHR 0x00" by (rule tolower_c_NUL [THEN iffD1])
  with d(2) assms(2) show False by simp
qed

lemma case_variation_refl [simp]: "case_variation s s"
  by (simp add: case_variation_def)

lemma case_variation_both:
  "case_variation s t \<Longrightarrow> case_variation s u \<Longrightarrow> case_variation t u"
  by (simp add: case_variation_def)

lemma status_not_led_on: "\<not> case_variation ''STATUS'' ''LED ON''"
  by code_simp

lemma equalsIgnoreCase_variation:
  assumes "case_variation cmd kw" "CHR 0x00 \<notin> set kw"
  shows "equalsIgnoreCase cmd x \<longleftrightarrow> case_variation cmd x"
  using equalsIgnoreCase_text [OF case_variation_text [OF assms]] .

lemma handle_ping:
  assumes "case_variation cmd ''PING''"
  shows "handleCommand brd cmd now st = println ''PONG'' st"
  using assms by (simp add: handleCommand_def equalsIgnoreCase_variation [OF assms])

lemma handle_led_on:
  assumes "case_variation cmd ''LED ON''"
  shows "handleCommand brd cmd now st = println ''OK'' (digitalWrite (LED_BUILTIN brd) True st)"
proof -
  from assms have "length cmd = 6" by (simp add: case_variation_def)
  then have "\<not> case_variation cmd ''PING''" by (simp add: case_variation_def)
  with assms show ?thesis
    by (simp add: handleCommand_def equalsIgnoreCase_variation [OF assms])
qed

lemma handle_led_off:
  assumes "case_variation cmd ''LED OFF''"
  shows "handleCommand brd cmd now st = println ''OK'' (digitalWrite (LED_BUILTIN brd) False st)"
proof -
  from assms have "length cmd = 7" by (simp add: case_variation_def)
  then have "\<not> case_variation cmd ''PING''" "\<not> case_variation cmd ''LED ON''"
    by (simp_all add: case_variation_def)
  with assms show ?thesis
    by (simp add: handleCommand_def equalsIgnoreCase_variation [OF assms])
qed

lemma handle_status:
  assumes "case_variation cmd ''STATUS''"
  shows "handleCommand brd cmd now st = println ''READY'' st"
proof -
  from assms have "length cmd = 6" by (simp add: case_variation_def)
  then have "\<not> case_variation cmd ''PING''" "\<not> case_variation cmd ''LED OFF''"
    by (simp_all add: case_variation_def)
  moreover have "\<not> case_variation cmd ''LED ON''"
    using case_variation_both [OF assms] status_not_led_on by blast
  ultimately show ?thesis using assms
    by (simp add: handleCommand_def equalsIgnoreCase_variation [OF assms])
qed

lemma handle_handshake:
  assumes "case_variation cmd HANDSHAKE_Q"
  shows "handleCommand brd cmd now st = println HANDSHAKE_A st"
proof -
  have n: "CHR 0x00 \<notin> set HANDSHAKE_Q" by (simp add: HANDSHAKE_Q_def)
  from assms have "length cmd = 20" by (simp add: case_variation_def HANDSHAKE_Q_def)
  then have "\<not> case_variation cmd ''PING''" "\<not> case_variation cmd ''LED ON''"
    "\<not> case_variation cmd ''LED OFF''" "\<not> case_variation cmd ''STATUS''"
    by (simp_all add: case_variation_def)
  with assms show ?thesis
    by (simp add: handleCommand_def equalsIgnoreCase_variation [OF assms n])
qed

text \<open>The lower-case handshake is answered as the handshake, not with \<^verbatim>\<open>ERR\<close>.\<close>

theorem handshake_case_counterexample:
  "handleCommand avr_board ''hi, are you arduino?'' 7 boot_state =
     boot_state\<lparr>serial_out := [''This is Arduino'']\<rparr> \<and>
   handleCommand avr_board ''hi, are you arduino?'' 7 boot_state \<noteq>
     boot_state\<lparr>serial_out := [''ERR'']\<rparr>"
  by code_simp

text \<open>
  Claim C7, amended. The handshake is matched without regard to letter case, as the
  keyword commands are: the line \<^verbatim>\<open>Hi, are you arduino?\<close> and every line that differs
  from it only in the case of letters (such as \<^verbatim>\<open>hi, are you arduino?\<close>) is answered
  \<^verbatim>\<open>This is Arduino\<close>, and nothing else changes.
\<close>

theorem handshake_ignores_case:
  assumes "case_variation cmd ''Hi, are you arduino?''"
  shows "handleCommand brd cmd now st = st\<lparr>serial_out := serial_out st @ [''This is Arduino'']\<rparr>"
  using assms handle_handshake [of cmd brd now st]
  by (simp add: HANDSHAKE_Q_def HANDSHAKE_A_def println_def)

theorem handshake_ignores_case_witness:
  "case_variation ''Hi, are you arduino?'' ''Hi, are you arduino?'' \<and>
   handleCommand avr_board ''Hi, are you arduino?'' 7 boot_state =
     boot_state\<lparr>serial_out := serial_out boot_state @ [''This is Arduino'']\<rparr> \<and>
   case_variation ''hi, ARE you Arduino?'' ''Hi, are you arduino?'' \<and>
   handleCommand avr_board ''hi, ARE you Arduino?'' 7 boot_state =
     boot_state\<lparr>serial_out := serial_out boot_state @ [''This is Arduino'']\<rparr>"
proof -
  have a: "case_variation ''Hi, are you arduino?'' ''Hi, are you arduino?''" by code_simp
  have b: "case_variation ''hi, ARE you Arduino?'' ''Hi, are you arduino?''" by code_simp
  from handshake_ignores_case [OF a] handshake_ignores_case [OF b] a b show ?thesis
    by blast
qed

subsection \<open>Case variations of the relay prefixes\<close>

lemma case_variation_Cons:
  "case_variation (c # s) (d # t) \<longleftrightarrow> tolower_c c = tolower_c d \<and> case_variation s t"
  by (auto simp: case_variation_def)

lemma case_variation_take_Cons:
  "case_variation (take (Suc n) s) (c # p) \<longleftrightarrow>
     (\<exists>d r. s = d # r \<and> tolower_c d = tolower_c c \<and> case_variation (take n r) p)"
  by (cases s) (auto simp: case_variation_def)

lemma not_RELAY_ON:
  assumes "take 9 cmd \<noteq> ''RELAY_ON;''"
  shows "\<not> startsWith cmd ''RELAY_ON;''"
proof
  assume "startsWith cmd ''RELAY_ON;''"
  then have "take (length ''RELAY_ON;'') cmd = ''RELAY_ON;''"
    unfolding startsWith_def by (rule conjunct2)
  moreover have "length ''RELAY_ON;'' = 9" by simp
  ultimately have "take 9 cmd = ''RELAY_ON;''" by (simp only:)
  with assms show False by simp
qed

lemma not_RELAY_ON_OVERWRITE:
  assumes "take 19 cmd \<noteq> ''RELAY_ON_OVERWRITE;''"
  shows "\<not> startsWith cmd ''RELAY_ON_OVERWRITE;''"
proof
  assume "startsWith cmd ''RELAY_ON_OVERWRITE;''"
  then have "take (length ''RELAY_ON_OVERWRITE;'') cmd = ''RELAY_ON_OVERWRITE;''"
    unfolding startsWith_def by (rule conjunct2)
  moreover have "length ''RELAY_ON_OVERWRITE;'' = 19" by simp
  ultimately have "take 19 cmd = ''RELAY_ON_OVERWRITE;''" by (simp only:)
  with assms show False by simp
qed

lemma variant_not_keyword:
  assumes "cmd = d # r" "tolower_c d = tolower_c CHR ''R''" "9 \<le> length cmd"
  shows "\<not> equalsIgnoreCase cmd ''PING''" "\<not> equalsIgnoreCase cmd ''LED ON''"
    "\<not> equalsIgnoreCase cmd ''LED OFF''" "\<not> equalsIgnoreCase cmd ''STATUS''"
    "\<not> equalsIgnoreCase cmd HANDSHAKE_Q"
proof -
  from assms(3) show "\<not> equalsIgnoreCase cmd ''PING''" "\<not> equalsIgnoreCase cmd ''LED ON''"
    "\<not> equalsIgnoreCase cmd ''LED OFF''" "\<not> equalsIgnoreCase cmd ''STATUS''"
    by (auto simp: equalsIgnoreCase_def)
  have dn: "d \<noteq> CHR 0x00"
  proof
    assume "d = CHR 0x00"
    with assms(2) have "tolower_c CHR ''R'' = CHR 0x00" by simp
    then show False by simp
  qed
  have "tolower_c CHR ''R'' \<noteq> tolower_c CHR ''H''"
    by (simp add: tolower_c_def isupper_c_def)
  with assms(2) equalsIgnoreCase_first [OF _ dn, of r "CHR ''H''"]
  show "\<not> equalsIgnoreCase cmd HANDSHAKE_Q"
    by (auto simp: assms(1) HANDSHAKE_Q_def)
qed

lemma relay_on_variant_unrecognised:
  assumes "case_variation (take 9 cmd) ''RELAY_ON;''" "take 9 cmd \<noteq> ''RELAY_ON;''"
  shows "handleCommand brd cmd now st = println ''ERR'' st"
proof -
  from assms(1) have len: "9 \<le> length cmd"
    by (auto simp: case_variation_def)
  from assms(1) obtain d r where "cmd = d # r" "tolower_c d = tolower_c CHR ''R''"
    by (auto simp: eval_nat_numeral case_variation_take_Cons)
  note k = variant_not_keyword [OF this len]
  note a = not_RELAY_ON [OF assms(2)]
  have b: "\<not> startsWith cmd ''RELAY_ON_OVERWRITE;''"
  proof
    assume "startsWith cmd ''RELAY_ON_OVERWRITE;''"
    then have "take 9 cmd = ''RELAY_ON_''"
      by (auto simp: startsWith_Cons)
    with assms(1) show False
      by (simp add: case_variation_def tolower_c_def isupper_c_def)
  qed
  from k a b show ?thesis by (simp add: handleCommand_def)
qed

lemma relay_on_overwrite_variant_unrecognised:
  assumes "case_variation (take 19 cmd) ''RELAY_ON_OVERWRITE;''"
    "take 19 cmd \<noteq> ''RELAY_ON_OVERWRITE;''"
  shows "handleCommand brd cmd now st = println ''ERR'' st"
proof -
  from assms(1) have len: "9 \<le> length cmd"
    by (auto simp: case_variation_def)
  from assms(1) obtain d r where "cmd = d # r" "tolower_c d = tolower_c CHR ''R''"
    by (auto simp: eval_nat_numeral case_variation_take_Cons)
  note k = variant_not_keyword [OF this len]
  note b = not_RELAY_ON_OVERWRITE [OF assms(2)]
  have a: "\<not> startsWith cmd ''RELAY_ON;''"
  proof
    assume "startsWith cmd ''RELAY_ON;''"
    then obtain r where "cmd = ''RELAY_ON;'' @ r"
      by (auto simp: startsWith_Cons)
    with assms(1) show False
      by (simp add: eval_nat_numeral case_variation_Cons tolower_c_def isupper_c_def)
  qed
  from k a b show ?thesis by (simp add: handleCommand_def)
qed

text \<open>The lower-case form of a relay command that is answered \<^verbatim>\<open>OK\<close> is answered \<^verbatim>\<open>ERR\<close>.\<close>

theorem relay_keyword_case_counterexample:
  "case_variation (take 9 ''relay_on;13;0;0'') ''RELAY_ON;'' \<and>
   serial_out (handleCommand avr_board ''RELAY_ON;13;0;0'' 7 boot_state) = [''OK''] \<and>
   handleCommand avr_board ''relay_on;13;0;0'' 7 boot_state =
     boot_state\<lparr>serial_out := [''ERR'']\<rparr>"
  by code_simp

text \<open>
  Claim C8, amended. The four fixed keywords \<^verbatim>\<open>PING\<close>, \<^verbatim>\<open>LED ON\<close>, \<^verbatim>\<open>LED OFF\<close> and
  \<^verbatim>\<open>STATUS\<close> are matched without regard to letter case: every case variation of such a
  line is handled exactly as the canonical line is. The prefixes \<^verbatim>\<open>RELAY_ON;\<close> and
  \<^verbatim>\<open>RELAY_ON_OVERWRITE;\<close> are matched exactly: a line that begins with a case variation
  of such a prefix other than the prefix itself is answered \<^verbatim>\<open>ERR\<close> and changes nothing
  else.
\<close>

theorem keywords_ignore_case_relay_prefix_exact:
  "(\<forall>kw\<in>{''PING'', ''LED ON'', ''LED OFF'', ''STATUS''}.
      case_variation cmd kw \<longrightarrow> handleCommand brd cmd now st = handleCommand brd kw now st) \<and>
   (case_variation (take 9 cmd) ''RELAY_ON;'' \<and> take 9 cmd \<noteq> ''RELAY_ON;'' \<longrightarrow>
      handleCommand brd cmd now st = st\<lparr>serial_out := serial_out st @ [''ERR'']\<rparr>) \<and>
   (case_variation (take 19 cmd) ''RELAY_ON_OVERWRITE;'' \<and>
      take 19 cmd \<noteq> ''RELAY_ON_OVERWRITE;'' \<longrightarrow>
      handleCommand brd cmd now st = st\<lparr>serial_out := serial_out st @ [''ERR'']\<rparr>)"
proof -
  have "handleCommand brd cmd now st = handleCommand brd ''PING'' now st"
    if "case_variation cmd ''PING''"
    using that by (simp add: handle_ping)
  moreover have "handleCommand brd cmd now st = handleCommand brd ''LED ON'' now st"
    if "case_variation cmd ''LED ON''"
    using that by (simp add: handle_led_on)
  moreover have "handleCommand brd cmd now st = handleCommand brd ''LED OFF'' now st"
    if "case_variation cmd ''LED OFF''"
    using that by (simp add: handle_led_off)
  moreover have "handleCommand brd cmd now st = handleCommand brd ''STATUS'' now st"
    if "case_variation cmd ''STATUS''"
    using that by (simp add: handle_status)
  ultimately show ?thesis
    using relay_on_variant_unrecognised [of cmd brd now st]
      relay_on_overwrite_variant_unrecognised [of cmd brd now st]
    by (auto simp: println_def)
qed

theorem keywords_ignore_case_relay_prefix_exact_witness:
  "case_variation ''Led On'' ''LED ON'' \<and>
   handleCommand avr_board ''Led On'' 7 boot_state = handleCommand avr_board ''LED ON'' 7 boot_state \<and>
   handleCommand avr_board ''Led On'' 7 boot_state =
     boot_state\<lparr>serial_out := [''OK''], pin_writes := [(13, True)]\<rparr> \<and>
   case_variation (take 9 ''Relay_On;13;0;0'') ''RELAY_ON;'' \<and>
   take 9 ''Relay_On;13;0;0'' \<noteq> ''RELAY_ON;'' \<and>
   handleCommand avr_board ''Relay_On;13;0;0'' 7 boot_state =
     boot_state\<lparr>serial_out := serial_out boot_state @ [''ERR'']\<rparr> \<and>
   case_variation (take 19 ''relay_on_overwrite;13;0;0'') ''RELAY_ON_OVERWRITE;'' \<and>
   take 19 ''relay_on_overwrite;13;0;0'' \<noteq> ''RELAY_ON_OVERWRITE;'' \<and>
   handleCommand avr_board ''relay_on_overwrite;13;0;0'' 7 boot_state =
     boot_state\<lparr>serial_out := serial_out boot_state @ [''ERR'']\<rparr>"
proof -
  have a: "case_variation ''Led On'' ''LED ON''" by code_simp
  have v: "handleCommand avr_board ''LED ON'' 7 boot_state =
     boot_state\<lparr>serial_out := [''OK''], pin_writes := [(13, True)]\<rparr>" by code_simp
  have b: "case_variation (take 9 ''Relay_On;13;0;0'') ''RELAY_ON;''"
    "take 9 ''Relay_On;13;0;0'' \<noteq> ''RELAY_ON;''" by code_simp+
  have c: "case_variation (take 19 ''relay_on_overwrite;13;0;0'') ''RELAY_ON_OVERWRITE;''"
    "take 19 ''relay_on_overwrite;13;0;0'' \<noteq> ''RELAY_ON_OVERWRITE;''" by code_simp+
  from keywords_ignore_case_relay_prefix_exact [of "''Led On''" avr_board 7 boot_state] a
  have a': "handleCommand avr_board ''Led On'' 7 boot_state =
      handleCommand avr_board ''LED ON'' 7 boot_state"
    by blast
  from keywords_ignore_case_relay_prefix_exact [of "''Relay_On;13;0;0''" avr_board 7 boot_state] b
  have b': "handleCommand avr_board ''Relay_On;13;0;0'' 7 boot_state =
     boot_state\<lparr>serial_out := serial_out boot_state @ [''ERR'']\<rparr>"
    by blast
  from keywords_ignore_case_relay_prefix_exact
    [of "''relay_on_overwrite;13;0;0''" avr_board 7 boot_state] c
  have c': "handleCommand avr_board ''relay_on_overwrite;13;0;0'' 7 boot_state =
     boot_state\<lparr>serial_out := serial_out boot_state @ [''ERR'']\<rparr>"
    by blast
  from a a' v b b' c c' show ?thesis by simp
qed

subsection \<open>Malformed commands\<close>








subsection \<open>The line buffer\<close>

lemma accumulated_Nil: "length out \<le> 120 \<Longrightarrow> accumulated out [] = out"
  by (simp add: accumulated_def Let_def)

lemma accumulated_CR: "accumulated out (CHR 0x0D # xs) = accumulated out xs"
  by (simp add: accumulated_def Let_def)

lemma accumulated_Cons:
  assumes "c \<noteq> CHR 0x0D" "length out \<le> 120"
  shows "accumulated out (c # xs) =
     accumulated (if length (out @ [c]) > 120 then [] else out @ [c]) xs"
proof (cases "length out = 120")
  case True
  let ?b = "filter (\<lambda>c. c \<noteq> CHR 0x0D) xs"
  have "(121 + length ?b) div 121 = Suc (length ?b div 121)" by simp
  then have e: "121 * (length (out @ c # ?b) div 121) = 121 * (length ?b div 121) + 121"
    using True by simp
  have d: "drop 121 (out @ c # ?b) = ?b"
    using True by simp
  have "drop (121 * (length (out @ c # ?b) div 121)) (out @ c # ?b) =
      drop (121 * (length ?b div 121)) (drop 121 (out @ c # ?b))"
    by (simp only: e drop_drop)
  also note d
  finally have "drop (121 * (length (out @ c # ?b) div 121)) (out @ c # ?b) =
      drop (121 * (length ?b div 121)) ?b" .
  moreover have "accumulated out (c # xs) =
      drop (121 * (length (out @ c # ?b) div 121)) (out @ c # ?b)"
    by (simp only: accumulated_def Let_def filter.simps assms(1) not_False_eq_True if_True)
  moreover have "accumulated (if length (out @ [c]) > 120 then [] else out @ [c]) xs =
      drop (121 * (length ?b div 121)) ?b"
    using True by (simp add: accumulated_def Let_def)
  ultimately show ?thesis by (simp only:)
next
  case False
  with assms show ?thesis by (simp add: accumulated_def Let_def)
qed

lemma length_accumulated: "length (accumulated out xs) \<le> 120"
proof -
  have "length (accumulated out xs) = length (out @ filter (\<lambda>c. c \<noteq> CHR 0x0D) xs) mod 121"
    unfolding accumulated_def Let_def length_drop by (simp add: minus_mult_div_eq_mod)
  also have "\<dots> < 121" by simp
  finally show ?thesis by simp
qed

lemma readLine_no_terminator:
  assumes "CHR 0x0A \<notin> set xs" "length out \<le> 120"
  shows "readLine xs out = (False, accumulated out xs, [])"
  using assms
proof (induction xs arbitrary: out)
  case Nil
  then show ?case by (simp add: accumulated_Nil)
next
  case (Cons c xs)
  show ?case
  proof (cases "c = CHR 0x0D")
    case True
    with Cons show ?thesis by (simp add: accumulated_CR)
  next
    case False
    let ?o = "if length (out @ [c]) > 120 then [] else out @ [c]"
    have "length ?o \<le> 120" by simp
    with Cons have "readLine xs ?o = (False, accumulated ?o xs, [])" by simp
    moreover from Cons.prems have "c \<noteq> CHR 0x0A" by auto
    ultimately show ?thesis
      using Cons.prems False by (simp add: accumulated_Cons Let_def del: length_append)
  qed
qed

lemma readLine_terminator:
  assumes "CHR 0x0A \<notin> set xs" "length out \<le> 120"
  shows "readLine (xs @ CHR 0x0A # rest) out = (True, accumulated out xs, rest)"
  using assms
proof (induction xs arbitrary: out)
  case Nil
  then show ?case by (simp add: accumulated_Nil)
next
  case (Cons c xs)
  show ?case
  proof (cases "c = CHR 0x0D")
    case True
    with Cons show ?thesis by (simp add: accumulated_CR)
  next
    case False
    let ?o = "if length (out @ [c]) > 120 then [] else out @ [c]"
    have "length ?o \<le> 120" by simp
    with Cons have "readLine (xs @ CHR 0x0A # rest) ?o = (True, accumulated ?o xs, rest)"
      by simp
    moreover from Cons.prems have "c \<noteq> CHR 0x0A" by auto
    ultimately show ?thesis
      using Cons.prems False by (simp add: accumulated_Cons Let_def del: length_append)
  qed
qed


lemma relay_on_loop_line:
  "relay_on_loop 0 pin d u now (st\<lparr>line := l\<rparr>) = (relay_on_loop 0 pin d u now st)\<lparr>line := l\<rparr>"
proof (cases "pin \<in> set RELAY_PINS")
  case True
  then obtain k where k: "k < NUM_RELAYS" "RELAY_PINS ! k = pin"
    by (auto simp: in_set_conv_nth NUM_RELAYS_def)
  show ?thesis by (simp add: relay_on_loop_found [OF k] println_def)
next
  case False
  then show ?thesis by (simp add: relay_on_loop_unknown println_def)
qed

lemma relay_on_overwrite_loop_line:
  "relay_on_overwrite_loop 0 pin d u now (st\<lparr>line := l\<rparr>) =
     (relay_on_overwrite_loop 0 pin d u now st)\<lparr>line := l\<rparr>"
proof (cases "pin \<in> set RELAY_PINS")
  case True
  then obtain k where k: "k < NUM_RELAYS" "RELAY_PINS ! k = pin"
    by (auto simp: in_set_conv_nth NUM_RELAYS_def)
  show ?thesis by (simp add: relay_on_overwrite_loop_found [OF k] println_def)
next
  case False
  then show ?thesis by (simp add: relay_on_overwrite_loop_unknown println_def)
qed

lemma handleCommand_line:
  "handleCommand brd cmd now (st\<lparr>line := l\<rparr>) = (handleCommand brd cmd now st)\<lparr>line := l\<rparr>"
  by (simp add: handleCommand_def println_def digitalWrite_def relay_on_loop_line
      relay_on_overwrite_loop_line split: option.splits)

lemma long_line_facts:
  "120 < length long_line" "CHR 0x0A \<notin> set long_line" "accumulated [] long_line = ''PING''"
  by (simp_all add: long_line_def accumulated_def)

lemma trim_PING: "trim ''PING'' = ''PING''"
  by code_simp


lemma fold_scheduler_step_line:
  "line (fold (scheduler_step now) is st) = line st"
  by (induction "is" arbitrary: st) (simp_all add: scheduler_step_eq)

lemma scheduler_line: "line (scheduler now st) = line st"
  by (simp add: scheduler_def fold_scheduler_step_line)

text \<open>
  A line of 125 characters is answered: after the reset at the 121st character the
  remaining \<^verbatim>\<open>PING\<close> is read into the empty buffer and handled at the terminator.
\<close>

lemma handleCommand_line_eq: "line (handleCommand brd cmd now st) = line st"
proof -
  have "handleCommand brd cmd now st = (handleCommand brd cmd now st)\<lparr>line := line st\<rparr>"
    using handleCommand_line [where st = st and l = "line st"] by simp
  then have "line (handleCommand brd cmd now st) =
      line ((handleCommand brd cmd now st)\<lparr>line := line st\<rparr>)"
    by (rule arg_cong)
  then show ?thesis by simp
qed

theorem long_line_counterexample:
  "120 < length long_line \<and> CHR 0x0A \<notin> set long_line \<and>
   loop avr_board 3 4 (receive (long_line @ [CHR 0x0A]) boot_state) =
     boot_state\<lparr>serial_out := [''PONG'']\<rparr>"
proof -
  have r: "readLine (long_line @ [CHR 0x0A]) [] = (True, ''PING'', [])"
    using readLine_terminator [of long_line "[]" "[]"] by (simp add: long_line_facts)
  have s: "serial_in (receive (long_line @ [CHR 0x0A]) boot_state) = long_line @ [CHR 0x0A]"
    "line (receive (long_line @ [CHR 0x0A]) boot_state) = []"
    by (simp_all add: receive_def boot_state_def)
  have "loop avr_board 3 4 (receive (long_line @ [CHR 0x0A]) boot_state) =
      scheduler 4 ((handleCommand avr_board ''PING'' 3
        (receive (long_line @ [CHR 0x0A]) boot_state\<lparr>serial_in := []\<rparr>))\<lparr>line := []\<rparr>)"
    by (simp add: loop_def s r trim_PING Let_def handleCommand_line)
  also have "receive (long_line @ [CHR 0x0A]) boot_state\<lparr>serial_in := []\<rparr> = boot_state"
    by (simp add: receive_def boot_state_def)
  also have "scheduler 4 ((handleCommand avr_board ''PING'' 3 boot_state)\<lparr>line := []\<rparr>) =
      boot_state\<lparr>serial_out := [''PONG'']\<rparr>"
    by code_simp
  finally show ?thesis by (simp add: long_line_facts)
qed


text \<open>
  Claim C9, amended. When the buffer would exceed 120 characters, \<^verbatim>\<open>readLine\<close> resets
  it to empty and goes on reading; the reset prints nothing and changes nothing else, and
  the buffer never holds more than 120 characters. Only the characters read so far are
  discarded: what follows the last reset is accumulated from the empty buffer, and at the
  terminator it is trimmed and, unless empty, handled as a command. After the terminator
  the buffer is empty and the bytes behind the terminator are still in \<^verbatim>\<open>Serial\<close>, so
  the next line is read and handled unaffected.
\<close>

theorem line_buffer_reset:
  assumes "length (line st) \<le> 120"
  shows "(\<forall>c cs out. length out = 120 \<and> c \<noteq> CHR 0x0D \<and> c \<noteq> CHR 0x0A \<longrightarrow>
            readLine (c # cs) out = readLine cs []) \<and>
         length (line (loop brd t_cmd t_tick st)) \<le> 120 \<and>
         (CHR 0x0A \<notin> set (serial_in st) \<longrightarrow>
            loop brd t_cmd t_tick st =
              scheduler t_tick
                (st\<lparr>line := accumulated (line st) (serial_in st), serial_in := []\<rparr>)) \<and>
         (\<forall>xs rest. serial_in st = xs @ CHR 0x0A # rest \<and> CHR 0x0A \<notin> set xs \<longrightarrow>
            loop brd t_cmd t_tick st =
              scheduler t_tick
                (let st' = st\<lparr>line := [], serial_in := rest\<rparr>;
                     kept = trim (accumulated (line st) xs)
                 in if kept = [] then st' else handleCommand brd kept t_cmd st'))"
proof -
  have a: "readLine (c # cs) out = readLine cs []"
    if "length out = 120" "c \<noteq> CHR 0x0D" "c \<noteq> CHR 0x0A" for c cs out
    using that by simp
  have b: "loop brd t_cmd t_tick st =
      scheduler t_tick (st\<lparr>line := accumulated (line st) (serial_in st), serial_in := []\<rparr>)"
    if "CHR 0x0A \<notin> set (serial_in st)"
    by (simp add: loop_def readLine_no_terminator [OF that assms])
  have c: "loop brd t_cmd t_tick st =
      scheduler t_tick
        (let st' = st\<lparr>line := [], serial_in := rest\<rparr>;
             kept = trim (accumulated (line st) xs)
         in if kept = [] then st' else handleCommand brd kept t_cmd st')"
    if "serial_in st = xs @ CHR 0x0A # rest" "CHR 0x0A \<notin> set xs" for xs rest
  proof -
    have sw: "st\<lparr>serial_in := rest, line := []\<rparr> = st\<lparr>line := [], serial_in := rest\<rparr>"
      by (rule state.equality) simp_all
    have "handleCommand brd k t_cmd (st\<lparr>serial_in := rest\<rparr>)\<lparr>line := []\<rparr> =
        handleCommand brd k t_cmd (st\<lparr>line := [], serial_in := rest\<rparr>)" for k
      by (simp only: handleCommand_line [symmetric] sw)
    then show ?thesis
      by (simp add: loop_def that(1) readLine_terminator [OF that(2) assms] Let_def
          handleCommand_line sw)
  qed
  have d: "length (line (loop brd t_cmd t_tick st)) \<le> 120"
  proof (cases "CHR 0x0A \<in> set (serial_in st)")
    case True
    then obtain xs rest where "serial_in st = xs @ CHR 0x0A # rest" "CHR 0x0A \<notin> set xs"
      by (auto dest: split_list_first)
    from c [OF this] show ?thesis
      by (simp add: scheduler_line Let_def handleCommand_line_eq)
  next
    case False
    from b [OF this] length_accumulated [of "line st" "serial_in st"] show ?thesis
      by (simp add: scheduler_line)
  qed
  from a b c d show ?thesis
    by blast
qed

theorem line_buffer_reset_witness:
  "length (line boot_state) \<le> 120 \<and>
   CHR 0x0A \<notin> set (serial_in (receive long_line boot_state)) \<and>
   accumulated [] long_line = ''PING'' \<and>
   loop avr_board 3 4 (receive long_line boot_state) =
     scheduler 4 (boot_state\<lparr>line := ''PING''\<rparr>) \<and>
   serial_in (receive (long_line @ CHR 0x0A # ''STATUS'') boot_state) =
     long_line @ CHR 0x0A # ''STATUS'' \<and>
   CHR 0x0A \<notin> set long_line \<and> trim (accumulated [] long_line) \<noteq> [] \<and>
   loop avr_board 3 4 (receive (long_line @ CHR 0x0A # ''STATUS'') boot_state) =
     scheduler 4 (handleCommand avr_board ''PING'' 3 (boot_state\<lparr>serial_in := ''STATUS''\<rparr>))"
proof -
  let ?s1 = "receive long_line boot_state"
  let ?s2 = "receive (long_line @ CHR 0x0A # ''STATUS'') boot_state"
  have l: "length (line ?s1) \<le> 120" "length (line ?s2) \<le> 120" "length (line boot_state) \<le> 120"
    by (simp_all add: receive_def boot_state_def)
  have s1: "line ?s1 = []" "serial_in ?s1 = long_line"
    "?s1\<lparr>line := ''PING'', serial_in := []\<rparr> = boot_state\<lparr>line := ''PING''\<rparr>"
    by (simp_all add: receive_def boot_state_def)
  have s2: "line ?s2 = []" "serial_in ?s2 = long_line @ CHR 0x0A # ''STATUS''"
    "?s2\<lparr>line := [], serial_in := ''STATUS''\<rparr> = boot_state\<lparr>serial_in := ''STATUS''\<rparr>"
    by (simp_all add: receive_def boot_state_def)
  note n2 = long_line_facts(2) and acc = long_line_facts(3)
  have n: "CHR 0x0A \<notin> set (serial_in ?s1)" by (simp add: s1 n2)
  from line_buffer_reset [OF l(1), of avr_board 3 4] n
  have a: "loop avr_board 3 4 ?s1 = scheduler 4 (boot_state\<lparr>line := ''PING''\<rparr>)"
    by (simp add: s1 acc)
  from line_buffer_reset [OF l(2), of avr_board 3 4] s2(2) n2
  have "loop avr_board 3 4 ?s2 =
      scheduler 4
        (let st' = ?s2\<lparr>line := [], serial_in := ''STATUS''\<rparr>;
             kept = trim (accumulated (line ?s2) long_line)
         in if kept = [] then st' else handleCommand avr_board kept 3 st')"
    by blast
  then have b: "loop avr_board 3 4 ?s2 =
      scheduler 4 (handleCommand avr_board ''PING'' 3 (boot_state\<lparr>serial_in := ''STATUS''\<rparr>))"
    by (simp add: s2 acc trim_PING)
  from l(3) n acc a s2(2) n2 b show ?thesis by (simp add: trim_PING)
qed

subsection \<open>Busy while the off-time is ahead\<close>

text \<open>
  Relay 13 is armed at \<open>0xFFFFFFF6\<close> for 100 ms, so the stored off-time is 90. One
  millisecond later, 99 ms before that off-time (which the wrap-safe test does not judge
  due), a further \<^verbatim>\<open>RELAY_ON\<close> for pin 13 is answered \<^verbatim>\<open>OK\<close> and replaces both
  timestamps.
\<close>

theorem relay_on_across_wrap_counterexample:
  "serial_out armed_13_before_wrap = [''OK''] \<and>
   relayOnAt armed_13_before_wrap ! 4 = 0xFFFFFFF6 \<and>
   relayOffAt armed_13_before_wrap ! 4 = 90 \<and>
   \<not> spec_wrap_safe_due 0xFFFFFFF7 (relayOffAt armed_13_before_wrap ! 4) \<and>
   handleCommand avr_board ''RELAY_ON;13;0;100'' 0xFFFFFFF7 armed_13_before_wrap =
     armed_13_before_wrap\<lparr>relayOnAt := [0, 0, 0, 0, 0xFFFFFFF7],
       relayOffAt := [0, 0, 0, 0, 91], serial_out := [''OK'', ''OK'']\<rparr>"
  by code_simp

text \<open>
  Claim C1, amended. A \<^verbatim>\<open>RELAY_ON\<close> command for a configured pin, handled at time \<open>now\<close>
  while the relay's \<open>relayOffAt\<close> is greater than \<open>now\<close> as an unsigned 32-bit value (it
  is then set), is answered \<^verbatim>\<open>BUSY\<close> and changes nothing else. In particular, once a
  \<^verbatim>\<open>RELAY_ON\<close> at time \<open>now\<close> has been answered \<^verbatim>\<open>OK\<close> and its off-time
  \<open>now + delayMs + durMs\<close> does not exceed the 32-bit range, that off-time is stored, and
  a further \<^verbatim>\<open>RELAY_ON\<close> for the same pin, after any number of scheduler passes, all of
  them and the command itself at times below that off-time, is answered \<^verbatim>\<open>BUSY\<close> and
  changes nothing else.
\<close>

theorem relay_on_busy_while_off_greater:
  assumes "startsWith cmd ''RELAY_ON;''" and "relay_fields brd cmd = Some (pin, d, u)"
    and "k < NUM_RELAYS" and "RELAY_PINS ! k = pin" and "wf_state st"
  shows "(now < relayOffAt st ! k \<longrightarrow>
            handleCommand brd cmd now st = st\<lparr>serial_out := serial_out st @ [''BUSY'']\<rparr>) \<and>
         (let st1 = handleCommand brd cmd now st
          in serial_out st1 = serial_out st @ [''OK''] \<and>
             unat now + unat d + unat u < 2 ^ 32 \<longrightarrow>
             unat (relayOffAt st1 ! k) = unat now + unat d + unat u \<and>
             (\<forall>ts cmd' d' u' now'.
                startsWith cmd' ''RELAY_ON;'' \<and> relay_fields brd cmd' = Some (pin, d', u') \<and>
                (\<forall>t\<in>set ts. unat t < unat now + unat d + unat u) \<and>
                unat now' < unat now + unat d + unat u \<longrightarrow>
                (let st2 = fold scheduler ts st1
                 in handleCommand brd cmd' now' st2 =
                      st2\<lparr>serial_out := serial_out st2 @ [''BUSY'']\<rparr>)))"
proof -
  have busy: "handleCommand brd c t s = s\<lparr>serial_out := serial_out s @ [''BUSY'']\<rparr>"
    if "startsWith c ''RELAY_ON;''" "relay_fields brd c = Some (pin, d', u')"
      "t < relayOffAt s ! k" for c d' u' t s
    using that assms(3,4)
    by (simp add: handleCommand_relay_on relay_on_loop_found println_def)
  let ?st1 = "handleCommand brd cmd now st"
  let ?off = "unat now + unat d + unat u"
  have armed: "unat (relayOffAt ?st1 ! k) = ?off \<and>
      (\<forall>ts cmd' d' u' now'.
         startsWith cmd' ''RELAY_ON;'' \<and> relay_fields brd cmd' = Some (pin, d', u') \<and>
         (\<forall>t\<in>set ts. unat t < ?off) \<and> unat now' < ?off \<longrightarrow>
         handleCommand brd cmd' now' (fold scheduler ts ?st1) =
           (fold scheduler ts ?st1)
             \<lparr>serial_out := serial_out (fold scheduler ts ?st1) @ [''BUSY'']\<rparr>)"
    if ok: "serial_out ?st1 = serial_out st @ [''OK'']" and nowrap: "?off < 2 ^ 32"
  proof -
    from assms(1) have c: "startsWith cmd ''RELAY_ON;'' \<or> startsWith cmd ''RELAY_ON_OVERWRITE;''" ..
    note st1 = armed_state [OF c assms(2,3,4) ok]
    have wf1: "wf_state ?st1"
      using assms(5) by (simp add: st1 wf_state_def)
    have v: "relayOffAt ?st1 ! k = now + d + u"
      using assms(3,5) by (simp add: st1 wf_state_def)
    from nowrap have "unat now + unat d < 2 ^ 32" by simp
    then have "unat (now + d) = unat now + unat d"
      by (simp add: unat_add_lem [THEN iffD1])
    with nowrap have off: "unat (now + d + u) = ?off"
      by (simp add: unat_add_lem [THEN iffD1])
    have lt: "t < relayOffAt ?st1 ! k" if "unat t < ?off" for t
      using that by (simp add: v word_less_nat_alt off)
    have "handleCommand brd cmd' now' (fold scheduler ts ?st1) =
        (fold scheduler ts ?st1)
          \<lparr>serial_out := serial_out (fold scheduler ts ?st1) @ [''BUSY'']\<rparr>"
      if "startsWith cmd' ''RELAY_ON;''" "relay_fields brd cmd' = Some (pin, d', u')"
        "\<forall>t\<in>set ts. unat t < ?off" "unat now' < ?off"
      for ts cmd' d' u' now'
    proof -
      from that(3) lt have "\<forall>t\<in>set ts. t < relayOffAt ?st1 ! k" by blast
      from fold_scheduler_off_pending [OF wf1 assms(3) this]
      have "relayOffAt (fold scheduler ts ?st1) ! k = relayOffAt ?st1 ! k" by simp
      with that lt [of now'] show ?thesis by (intro busy) simp_all
    qed
    with v off show ?thesis by simp
  qed
  from busy [OF assms(1,2)] armed show ?thesis
    unfolding Let_def by blast
qed

theorem relay_on_busy_while_off_greater_witness:
  "startsWith ''RELAY_ON;13;0;100'' ''RELAY_ON;'' \<and>
   relay_fields avr_board ''RELAY_ON;13;0;100'' = Some (13, 0, 100) \<and>
   relay_fields avr_board ''RELAY_ON;13;5;5'' = Some (13, 5, 5) \<and>
   (4::nat) < NUM_RELAYS \<and> RELAY_PINS ! 4 = 13 \<and> wf_state boot_state \<and>
   unat (7 :: u32) + unat (0 :: u32) + unat (100 :: u32) < 2 ^ 32 \<and>
   (let st1 = handleCommand avr_board ''RELAY_ON;13;0;100'' 7 boot_state;
        st2 = fold scheduler [20, 30] st1
    in serial_out st1 = serial_out boot_state @ [''OK''] \<and>
       unat (relayOffAt st1 ! 4) = 107 \<and>
       50 < relayOffAt st2 ! 4 \<and>
       handleCommand avr_board ''RELAY_ON;13;5;5'' 50 st2 =
         st2\<lparr>serial_out := serial_out st2 @ [''BUSY'']\<rparr>)"
proof -
  let ?st1 = "handleCommand avr_board ''RELAY_ON;13;0;100'' 7 boot_state"
  let ?st2 = "fold scheduler [20, 30] ?st1"
  have c1: "startsWith ''RELAY_ON;13;0;100'' ''RELAY_ON;''" by code_simp
  have f1: "relay_fields avr_board ''RELAY_ON;13;0;100'' = Some (13, 0, 100)" by code_simp
  have c2: "startsWith ''RELAY_ON;13;5;5'' ''RELAY_ON;''" by code_simp
  have f2: "relay_fields avr_board ''RELAY_ON;13;5;5'' = Some (13, 5, 5)" by code_simp
  have k: "(4::nat) < NUM_RELAYS" "RELAY_PINS ! 4 = 13" by code_simp+
  have wf0: "wf_state boot_state" by code_simp
  have wf2: "wf_state ?st2" by code_simp
  have ok: "serial_out ?st1 = serial_out boot_state @ [''OK'']" by code_simp
  have off2: "50 < relayOffAt ?st2 ! 4" by code_simp
  have nw: "unat (7 :: u32) + unat (0 :: u32) + unat (100 :: u32) < 2 ^ 32" by simp
  have ts: "\<forall>t\<in>set [20, 30 :: u32]. unat t < unat (7 :: u32) + unat (0 :: u32) + unat (100 :: u32)"
    by simp
  have n: "unat (50 :: u32) < unat (7 :: u32) + unat (0 :: u32) + unat (100 :: u32)" by simp
  from relay_on_busy_while_off_greater [OF c1 f1 k wf0, of 7] ok nw
  have a: "unat (relayOffAt ?st1 ! 4) = unat (7 :: u32) + unat (0 :: u32) + unat (100 :: u32)"
    "\<forall>ts cmd' d' u' now'.
       startsWith cmd' ''RELAY_ON;'' \<and> relay_fields avr_board cmd' = Some (13, d', u') \<and>
       (\<forall>t\<in>set ts. unat t < unat (7 :: u32) + unat (0 :: u32) + unat (100 :: u32)) \<and>
       unat now' < unat (7 :: u32) + unat (0 :: u32) + unat (100 :: u32) \<longrightarrow>
       handleCommand avr_board cmd' now' (fold scheduler ts ?st1) =
         (fold scheduler ts ?st1)\<lparr>serial_out := serial_out (fold scheduler ts ?st1) @ [''BUSY'']\<rparr>"
    unfolding Let_def by blast+
  from a(1) have a1: "unat (relayOffAt ?st1 ! 4) = 107" by simp
  from a(2) c2 f2 ts n
  have a2: "handleCommand avr_board ''RELAY_ON;13;5;5'' 50 ?st2 =
      ?st2\<lparr>serial_out := serial_out ?st2 @ [''BUSY'']\<rparr>"
    by blast
  from relay_on_busy_while_off_greater [OF c2 f2 k wf2, of 50] off2
  have b: "handleCommand avr_board ''RELAY_ON;13;5;5'' 50 ?st2 =
      ?st2\<lparr>serial_out := serial_out ?st2 @ [''BUSY'']\<rparr>"
    by blast
  from c1 f1 f2 k wf0 nw ok a1 off2 a2 b show ?thesis
    unfolding Let_def by blast
qed

end
